theory Spec2Isabelle
  imports Main "HOL-Library.Sublist"
begin

section \<open>BlockBenjamminGifs: a shallow embedding of the plugin\<close>

text \<open>
  The development follows \<^verbatim>\<open>BlockBenjamminGifs.plugin.js\<close> (version 1.1.0) and, where
  a claim cites it, the retained 1.0.0 build of the same plugin. Strings are
  \<^typ>\<open>string\<close>; a JavaScript value that may be \<^verbatim>\<open>undefined\<close> or \<^verbatim>\<open>null\<close> is an
  \<^typ>\<open>'a option\<close>.
\<close>

subsection \<open>Strings\<close>

text \<open>
  \<^verbatim>\<open>String.prototype.toLowerCase\<close>, on the ASCII letters. The URLs the plugin reads
  from \<^verbatim>\<open>src\<close>, \<^verbatim>\<open>currentSrc\<close> and \<^verbatim>\<open>href\<close> are serialised URLs, which are ASCII.
\<close>

definition toLowerCase_char :: "char \<Rightarrow> char" where
  "toLowerCase_char c =
     (case map_of (zip ''ABCDEFGHIJKLMNOPQRSTUVWXYZ'' ''abcdefghijklmnopqrstuvwxyz'') c of
        None \<Rightarrow> c
      | Some l \<Rightarrow> l)"

definition toLowerCase :: "string \<Rightarrow> string" where
  "toLowerCase s = map toLowerCase_char s"

text \<open>\<^verbatim>\<open>haystack.startsWith(needle)\<close> and \<^verbatim>\<open>haystack.includes(needle)\<close>.\<close>

fun startsWith :: "string \<Rightarrow> string \<Rightarrow> bool" where
  "startsWith _ [] = True"
| "startsWith [] (n # ns) = False"
| "startsWith (h # hs) (n # ns) = (h = n \<and> startsWith hs ns)"

fun includes_str :: "string \<Rightarrow> string \<Rightarrow> bool" where
  "includes_str [] needle = (needle = [])"
| "includes_str (h # hs) needle = (startsWith (h # hs) needle \<or> includes_str hs needle)"

text \<open>\<^verbatim>\<open>Array.prototype.some\<close>.\<close>

fun some :: "'a list \<Rightarrow> ('a \<Rightarrow> bool) \<Rightarrow> bool" where
  "some [] p = False"
| "some (x # xs) p = (p x \<or> some xs p)"

subsection \<open>Configuration and settings\<close>

definition BLOCKED_WORDS :: "string list" where
  "BLOCKED_WORDS = [''benjammin'']"

definition GIF_PATTERNS :: "string list" where
  "GIF_PATTERNS =
     [''.gif'', ''tenor.com'', ''giphy.com'', ''media.discordapp.net'',
      ''media.tenor.com'', ''i.imgur.com'']"

text \<open>
  The plugin instance: the two settings as \<^verbatim>\<open>this.settings\<close> yields them (the stored
  value, else the declared default), and whether the mutation observer is connected.
\<close>

record plugin =
  blockInPicker :: bool
  caseSensitive :: bool
  observer :: bool

text \<open>The defaults of \<^verbatim>\<open>config.settings\<close>, before \<^verbatim>\<open>start()\<close>.\<close>

definition defaults :: plugin where
  "defaults = \<lparr>blockInPicker = True, caseSensitive = False, observer = False\<rparr>"

subsection \<open>Detection\<close>

text \<open>
  Both predicates are methods: they receive the instance. \<^verbatim>\<open>isGifUrl\<close> never reads it.
  \<^verbatim>\<open>!url\<close> holds for an absent URL and for the empty string.
\<close>

definition isGifUrl :: "plugin \<Rightarrow> string option \<Rightarrow> bool" where
  "isGifUrl this url =
     (case url of
        None \<Rightarrow> False
      | Some u \<Rightarrow>
          if u = [] then False
          else (let lower = toLowerCase u in some GIF_PATTERNS (\<lambda>p. includes_str lower p)))"

definition isBlocked :: "plugin \<Rightarrow> string option \<Rightarrow> bool" where
  "isBlocked this url =
     (case url of
        None \<Rightarrow> False
      | Some u \<Rightarrow>
          if u = [] then False
          else (let haystack = (if caseSensitive this then u else toLowerCase u)
                in some BLOCKED_WORDS
                     (\<lambda>word. let needle = (if caseSensitive this then word else toLowerCase word)
                             in includes_str haystack needle)))"

subsection \<open>The document\<close>

text \<open>
  Elements are JavaScript objects: an element is named by a reference (a number), its
  attributes, inline styles and listeners live in a store, and the shape of the document
  is a tree of references. A tree is a whole document (rooted at the \<^verbatim>\<open>html\<close> element)
  or a detached fragment (rooted at an element without parent).
\<close>

datatype dtree = Nd (nid: nat) (kids: "dtree list")

text \<open>
  The listeners the plugin registers. \<open>Reveal wrapper owner inPicker container\<close> is the
  closure of the click listener of version 1.1.0 with the variables it captures,
  \<open>Reveal_1_0_0 wrapper container\<close> the one of version 1.0.0, and \<open>StopPropagation\<close> is
  \<^verbatim>\<open>e => e.stopPropagation()\<close>.
\<close>

datatype listener =
    Reveal nat "nat option" bool nat
  | Reveal_1_0_0 nat nat
  | StopPropagation

text \<open>
  An element: its tag name in lower case, the \<^verbatim>\<open>class\<close> and \<^verbatim>\<open>id\<close> attributes (empty
  when absent), the URL properties (\<open>None\<close> for \<^verbatim>\<open>undefined\<close>; \<open>href\<close> is \<open>None\<close>
  exactly when the attribute is absent), the four \<^verbatim>\<open>data-btg-*\<close> entries of its
  \<^verbatim>\<open>dataset\<close>, the two inline styles the plugin writes, and its listeners by event type.

  A placeholder is one element in the model, the container \<^verbatim>\<open>div\<close>. Its inner markup
  (set through \<^verbatim>\<open>innerHTML\<close>) holds no \<^verbatim>\<open>img\<close>, \<^verbatim>\<open>video\<close>, \<^verbatim>\<open>a\<close> or
  \<^verbatim>\<open>article\<close>, no \<^verbatim>\<open>id\<close> and only \<^verbatim>\<open>btg-\<close> classes, so no selector of the plugin
  matches inside it; the click listener of its \<^verbatim>\<open>.btg-toggle\<close> is kept with the
  container, and a click on the reveal control is an event whose target is the container.
\<close>

record element =
  tagName :: string
  className :: string
  idAttr :: string
  src :: "string option"
  currentSrc :: "string option"
  href :: "string option"
  dataOriginalSrc :: "string option"
  btgDone :: "string option"
  btgOwnerDone :: "string option"
  btgClickBlocked :: "string option"
  btgEmbed :: "string option"
  display :: string
  pointerEvents :: string
  listeners :: "(string \<times> listener) list"

record dom =
  tree :: dtree
  props :: "nat \<Rightarrow> element"
  body :: nat

datatype error = TypeError

text \<open>
  A call returns the document (\<open>Inr\<close>) or throws (\<open>Inl\<close>); the document as the throw
  leaves it is part of the outcome, since the writes made before it stay.
\<close>

type_synonym outcome = "error \<times> dom + dom"

fun dom_of :: "outcome \<Rightarrow> dom" where
  "dom_of (Inl (e, d)) = d"
| "dom_of (Inr d) = d"

text \<open>What a method may be handed where it expects an element.\<close>

datatype node = HTMLElement nat | OtherNode

subsubsection \<open>Tree walks\<close>

fun ids :: "dtree \<Rightarrow> nat list" where
  "ids (Nd i ts) = i # concat (map ids ts)"

text \<open>The first list that is not empty, and the first value that is present.\<close>

fun first_path :: "nat list list \<Rightarrow> nat list" where
  "first_path [] = []"
| "first_path (p # ps) = (if p = [] then first_path ps else p)"

fun first_some :: "'a option list \<Rightarrow> 'a option" where
  "first_some [] = None"
| "first_some (x # xs) = (case x of None \<Rightarrow> first_some xs | Some y \<Rightarrow> Some y)"

text \<open>
  The inclusive ancestors of an element, the element first and the root last; empty
  when the element is not in the tree.
\<close>

fun ancestors :: "dtree \<Rightarrow> nat \<Rightarrow> nat list" where
  "ancestors (Nd i ts) j =
     (if i = j then [i]
      else (let below = first_path (map (\<lambda>t. ancestors t j) ts)
            in if below = [] then [] else below @ [i]))"

fun subtree :: "dtree \<Rightarrow> nat \<Rightarrow> dtree option" where
  "subtree (Nd i ts) j =
     (if i = j then Some (Nd i ts) else first_some (map (\<lambda>t. subtree t j) ts))"

text \<open>The descendants of an element in document order, the element itself left out.\<close>

definition descendants :: "dtree \<Rightarrow> nat \<Rightarrow> nat list" where
  "descendants t j = (case subtree t j of None \<Rightarrow> [] | Some s \<Rightarrow> tl (ids s))"

fun append_node :: "nat \<Rightarrow> nat \<Rightarrow> dtree \<Rightarrow> dtree" where
  "append_node p c (Nd i ts) =
     Nd i (map (append_node p c) ts @ (if i = p then [Nd c []] else []))"

fun remove_node :: "nat \<Rightarrow> dtree \<Rightarrow> dtree" where
  "remove_node c (Nd i ts) = Nd i (map (remove_node c) (filter (\<lambda>t. nid t \<noteq> c) ts))"

subsubsection \<open>Selectors\<close>

datatype data_key = BtgDone | BtgOwnerDone | BtgClickBlocked | BtgEmbed

fun dataset :: "element \<Rightarrow> data_key \<Rightarrow> string option" where
  "dataset e BtgDone = btgDone e"
| "dataset e BtgOwnerDone = btgOwnerDone e"
| "dataset e BtgClickBlocked = btgClickBlocked e"
| "dataset e BtgEmbed = btgEmbed e"

text \<open>
  The simple selectors the plugin writes: \<^verbatim>\<open>[class*="s"]\<close>, \<^verbatim>\<open>[id^="s"]\<close>, a tag name,
  \<^verbatim>\<open>a[href]\<close> and \<^verbatim>\<open>[data-btg-...]\<close>. A selector is a comma-separated list of them.
\<close>

datatype simple_selector =
    ClassContains string
  | IdStartsWith string
  | Tag string
  | AnchorWithHref
  | HasData data_key

type_synonym selector = "simple_selector list"

fun matches1 :: "element \<Rightarrow> simple_selector \<Rightarrow> bool" where
  "matches1 e (ClassContains s) = includes_str (className e) s"
| "matches1 e (IdStartsWith s) = startsWith (idAttr e) s"
| "matches1 e (Tag t) = (tagName e = t)"
| "matches1 e AnchorWithHref = (tagName e = ''a'' \<and> href e \<noteq> None)"
| "matches1 e (HasData k) = (dataset e k \<noteq> None)"

definition matches :: "dom \<Rightarrow> nat \<Rightarrow> selector \<Rightarrow> bool" where
  "matches d el sel = some sel (matches1 (props d el))"

subsubsection \<open>The DOM interface the plugin calls\<close>

definition closest :: "dom \<Rightarrow> nat \<Rightarrow> selector \<Rightarrow> nat option" where
  "closest d el sel = List.find (\<lambda>a. matches d a sel) (ancestors (tree d) el)"

definition parentElement :: "dom \<Rightarrow> nat \<Rightarrow> nat option" where
  "parentElement d el =
     (case ancestors (tree d) el of
        [] \<Rightarrow> None
      | e # up \<Rightarrow> (case up of [] \<Rightarrow> None | p # _ \<Rightarrow> Some p))"

definition querySelectorAll :: "dom \<Rightarrow> nat \<Rightarrow> selector \<Rightarrow> nat list" where
  "querySelectorAll d root sel = filter (\<lambda>el. matches d el sel) (descendants (tree d) root)"

text \<open>\<^verbatim>\<open>document.querySelectorAll\<close>: every element of the document.\<close>

definition document_querySelectorAll :: "dom \<Rightarrow> selector \<Rightarrow> nat list" where
  "document_querySelectorAll d sel = filter (\<lambda>el. matches d el sel) (ids (tree d))"

text \<open>A write to one element: \<^verbatim>\<open>el.style.display = v\<close>, \<^verbatim>\<open>el.dataset.k = v\<close>, ...\<close>

definition update :: "dom \<Rightarrow> nat \<Rightarrow> (element \<Rightarrow> element) \<Rightarrow> dom" where
  "update d el f = d\<lparr>props := (props d)(el := f (props d el))\<rparr>"

definition new_element :: "string \<Rightarrow> element" where
  "new_element t =
     \<lparr>tagName = t, className = [], idAttr = [], src = None, currentSrc = None, href = None,
      dataOriginalSrc = None, btgDone = None, btgOwnerDone = None, btgClickBlocked = None,
      btgEmbed = None, display = [], pointerEvents = [], listeners = []\<rparr>"

text \<open>
  \<^verbatim>\<open>document.createElement\<close>: a reference no element of the tree has, and the new
  element in the store, not yet in the tree.
\<close>

definition fresh :: "dom \<Rightarrow> nat" where
  "fresh d = Suc (fold max (ids (tree d)) 0)"

definition createElement :: "dom \<Rightarrow> string \<Rightarrow> nat \<times> dom" where
  "createElement d t = (fresh d, d\<lparr>props := (props d)(fresh d := new_element t)\<rparr>)"

definition appendChild :: "dom \<Rightarrow> nat \<Rightarrow> nat \<Rightarrow> dom" where
  "appendChild d parent child = d\<lparr>tree := append_node parent child (tree d)\<rparr>"

definition remove :: "dom \<Rightarrow> nat \<Rightarrow> dom" where
  "remove d el = d\<lparr>tree := remove_node el (tree d)\<rparr>"

definition addEventListener :: "dom \<Rightarrow> nat \<Rightarrow> string \<Rightarrow> listener \<Rightarrow> dom" where
  "addEventListener d el ty l = update d el (\<lambda>e. e\<lparr>listeners := listeners e @ [(ty, l)]\<rparr>)"

text \<open>JavaScript truthiness of a string that may be absent, and \<^verbatim>\<open>a ?? b\<close>.\<close>

definition truthy :: "string option \<Rightarrow> bool" where
  "truthy v = (case v of None \<Rightarrow> False | Some s \<Rightarrow> s \<noteq> [])"

definition nullish :: "'a option \<Rightarrow> 'a option \<Rightarrow> 'a option" where
  "nullish a b = (case a of None \<Rightarrow> b | Some x \<Rightarrow> Some x)"

text \<open>\<^verbatim>\<open>new Set\<close> filled in order: a value already present is not added again.\<close>

definition set_add :: "'a list \<Rightarrow> 'a \<Rightarrow> 'a list" where
  "set_add seen x = (if x \<in> set seen then seen else seen @ [x])"

text \<open>\<^verbatim>\<open>forEach\<close> with a callback that may throw: the throw ends the loop.\<close>

fun forEach :: "'a list \<Rightarrow> (dom \<Rightarrow> 'a \<Rightarrow> outcome) \<Rightarrow> dom \<Rightarrow> outcome" where
  "forEach [] f d = Inr d"
| "forEach (x # xs) f d = (case f d x of Inl thrown \<Rightarrow> Inl thrown | Inr d' \<Rightarrow> forEach xs f d')"

subsection \<open>Element resolution\<close>

definition isInGifPicker :: "dom \<Rightarrow> nat \<Rightarrow> bool" where
  "isInGifPicker d el =
     (closest d el [ClassContains ''results__''] \<noteq> None \<or>
      closest d el [ClassContains ''gifPicker''] \<noteq> None \<or>
      closest d el [ClassContains ''categoryList''] \<noteq> None)"

definition getOwnerNode :: "dom \<Rightarrow> nat \<Rightarrow> bool \<Rightarrow> nat option" where
  "getOwnerNode d el inPicker =
     (if inPicker then nullish (closest d el [ClassContains ''result__'']) (parentElement d el)
      else
        nullish (closest d el [ClassContains ''imageWrapper''])
       (nullish (closest d el [ClassContains ''embedWrapper''])
       (nullish (closest d el [Tag ''article''])
       (nullish (closest d el [IdStartsWith ''message-accessories''])
       (parentElement d el)))))"

subsection \<open>Events\<close>

record event =
  etype :: string
  propagationStopped :: bool

text \<open>
  What a listener of the plugin does when it runs. The first equation is the click
  listener that \<^verbatim>\<open>hideAndEmbed\<close> of version 1.1.0 registers on the reveal control, the
  second the one of version 1.0.0.
\<close>

fun handle :: "listener \<Rightarrow> event \<times> dom \<Rightarrow> event \<times> dom" where
  "handle (Reveal wrapper owner inPicker container) (e, d) =
     (let e1 = e\<lparr>propagationStopped := True\<rparr>;
          d1 = update d wrapper (\<lambda>x. x\<lparr>display := []\<rparr>);
          d2 = fold (\<lambda>child dd. update dd child (\<lambda>x. x\<lparr>display := []\<rparr>))
                 (querySelectorAll d1 wrapper [HasData BtgDone]) d1;
          d3 = (case owner of None \<Rightarrow> d2
                | Some ow \<Rightarrow> update d2 ow (\<lambda>x. x\<lparr>btgOwnerDone := None\<rparr>));
          d4 = remove d3 container;
          d5 = (if inPicker
                then (case owner of None \<Rightarrow> d4
                      | Some ow \<Rightarrow>
                          update (update d4 ow (\<lambda>x. x\<lparr>pointerEvents := []\<rparr>)) ow
                            (\<lambda>x. x\<lparr>btgClickBlocked := None\<rparr>))
                else d4)
      in (e1, d5))"
| "handle (Reveal_1_0_0 wrapper container) (e, d) =
     (let d1 = update d wrapper (\<lambda>x. x\<lparr>display := []\<rparr>);
          d2 = remove d1 container
      in (e, d2))"
| "handle StopPropagation (e, d) = (e\<lparr>propagationStopped := True\<rparr>, d)"

text \<open>
  Bubbling, as the browser does it: the listeners of the target run, then those of each
  ancestor in turn, until a listener has stopped the propagation. The path is fixed
  before the first listener runs. The result lists the elements the event was delivered
  to, and the document the listeners leave.
\<close>

fun propagate :: "nat list \<Rightarrow> event \<times> dom \<Rightarrow> nat list \<times> dom" where
  "propagate [] (e, d) = ([], d)"
| "propagate (n # path) (e, d) =
     (let here = map snd (filter (\<lambda>tl. fst tl = etype e) (listeners (props d n)));
          (e', d') = fold handle here (e, d)
      in if propagationStopped e' then ([n], d')
         else (let (reached, d'') = propagate path (e', d') in (n # reached, d'')))"

definition dispatchEvent :: "dom \<Rightarrow> nat \<Rightarrow> string \<Rightarrow> nat list \<times> dom" where
  "dispatchEvent d target ty =
     propagate (ancestors (tree d) target) (\<lparr>etype = ty, propagationStopped = False\<rparr>, d)"

subsection \<open>DOM processing\<close>

definition hideAndEmbed :: "plugin \<Rightarrow> dom \<Rightarrow> nat \<Rightarrow> bool \<Rightarrow> nat option \<Rightarrow> outcome" where
  "hideAndEmbed this d el inPicker owner =
     (let wrapper =
            (if inPicker then el
             else (case closest d el [ClassContains ''imageWrapper'', ClassContains ''embedMedia''] of
                     None \<Rightarrow> el
                   | Some w \<Rightarrow> w));
          insertTarget =
            (if inPicker then nullish owner (parentElement d el)
             else nullish (closest d wrapper [IdStartsWith ''message-accessories''])
                    (parentElement d wrapper));
          d1 = update d wrapper (\<lambda>x. x\<lparr>display := ''none''\<rparr>);
          d2 = (if inPicker
                then (case owner of None \<Rightarrow> d1
                      | Some ow \<Rightarrow>
                          update (update d1 ow (\<lambda>x. x\<lparr>btgClickBlocked := Some ''1''\<rparr>)) ow
                            (\<lambda>x. x\<lparr>pointerEvents := ''none''\<rparr>))
                else d1);
          (container, d3) = createElement d2 ''div'';
          d4 = update d3 container (\<lambda>x. x\<lparr>btgEmbed := Some ''1''\<rparr>);
          d5 = (if inPicker then update d4 container (\<lambda>x. x\<lparr>className := ''btg-compact''\<rparr>)
                else d4);
          d6 = addEventListener d5 container ''click'' (Reveal wrapper owner inPicker container);
          d7 = (if inPicker
                then fold (\<lambda>evt dd. addEventListener dd container evt StopPropagation)
                       [''mouseover'', ''mouseenter'', ''mousemove'', ''mouseout'', ''mouseleave''] d6
                else d6)
      in (case insertTarget of
            None \<Rightarrow> Inl (TypeError, d7)
          | Some target \<Rightarrow> Inr (appendChild d7 target container)))"

text \<open>
  The URLs of a candidate: \<^verbatim>\<open>[...new Set([...].filter(Boolean))]\<close>, the absent and the
  empty ones dropped and each URL kept once.
\<close>

definition urls_of :: "dom \<Rightarrow> nat \<Rightarrow> string option list" where
  "urls_of d el =
     fold (\<lambda>u seen. set_add seen u)
       (filter truthy
          [src (props d el),
           currentSrc (props d el),
           href (props d el),
           dataOriginalSrc (props d el),
           (case closest d el [Tag ''a''] of None \<Rightarrow> None | Some a \<Rightarrow> href (props d a))])
       []"

definition processElement :: "plugin \<Rightarrow> dom \<Rightarrow> nat \<Rightarrow> outcome" where
  "processElement this d el =
     (if truthy (btgDone (props d el)) then Inr d
      else
        let urls = urls_of d el in
        if \<not> some urls (isGifUrl this) then Inr d
        else if \<not> some urls (isBlocked this) then Inr d
        else
          let inPicker = isInGifPicker d el in
          if inPicker \<and> \<not> blockInPicker this then Inr d
          else
            let d1 = update d el (\<lambda>x. x\<lparr>btgDone := Some ''1''\<rparr>);
                owner = getOwnerNode d1 el inPicker
            in if (case owner of None \<Rightarrow> False | Some ow \<Rightarrow> truthy (btgOwnerDone (props d1 ow)))
               then
                 (if inPicker then Inr (update d1 el (\<lambda>x. x\<lparr>display := ''none''\<rparr>))
                  else
                    let w = (case closest d1 el
                                    [ClassContains ''imageWrapper'', ClassContains ''embedMedia''] of
                               None \<Rightarrow> el
                             | Some w' \<Rightarrow> w')
                    in Inr (update d1 w (\<lambda>x. x\<lparr>display := ''none''\<rparr>)))
               else
                 let d2 = (case owner of None \<Rightarrow> d1
                           | Some ow \<Rightarrow> update d1 ow (\<lambda>x. x\<lparr>btgOwnerDone := Some ''1''\<rparr>))
                 in hideAndEmbed this d2 el inPicker owner)"

definition processContainer :: "plugin \<Rightarrow> dom \<Rightarrow> node \<Rightarrow> outcome" where
  "processContainer this d container =
     (case container of
        OtherNode \<Rightarrow> Inr d
      | HTMLElement c \<Rightarrow>
          let seen0 = (if matches d c [Tag ''img'', Tag ''video'', AnchorWithHref] then set_add [] c
                       else []);
              seen = fold (\<lambda>el seen. set_add seen el)
                       (querySelectorAll d c [Tag ''img'', Tag ''video'', AnchorWithHref]) seen0
          in forEach seen (processElement this) d)"

subsection \<open>Helpers and lifecycle\<close>

text \<open>
  The four loops that \<^verbatim>\<open>rescan()\<close> and \<^verbatim>\<open>stop()\<close> both run, statement for statement
  the same in the two methods. Each \<^verbatim>\<open>querySelectorAll\<close> is evaluated when its loop
  starts.
\<close>

definition clear_all :: "dom \<Rightarrow> dom" where
  "clear_all d =
     (let d1 = fold (\<lambda>e dd. remove dd e) (document_querySelectorAll d [HasData BtgEmbed]) d;
          d2 = fold (\<lambda>el dd.
                  let a = update dd el (\<lambda>x. x\<lparr>display := []\<rparr>);
                      b = update a el (\<lambda>x. x\<lparr>btgDone := None\<rparr>)
                  in (case closest b el [ClassContains ''imageWrapper'', ClassContains ''gifFavorite'',
                                        ClassContains ''embedMedia''] of
                        None \<Rightarrow> b
                      | Some wrapper \<Rightarrow> update b wrapper (\<lambda>x. x\<lparr>display := []\<rparr>)))
                (document_querySelectorAll d1 [HasData BtgDone]) d1;
          d3 = fold (\<lambda>el dd. update dd el (\<lambda>x. x\<lparr>btgOwnerDone := None\<rparr>))
                (document_querySelectorAll d2 [HasData BtgOwnerDone]) d2;
          d4 = fold (\<lambda>el dd.
                  update (update dd el (\<lambda>x. x\<lparr>pointerEvents := []\<rparr>)) el
                    (\<lambda>x. x\<lparr>btgClickBlocked := None\<rparr>))
                (document_querySelectorAll d3 [HasData BtgClickBlocked]) d3
      in d4)"

definition rescan :: "plugin \<Rightarrow> dom \<Rightarrow> outcome" where
  "rescan this d = processContainer this (clear_all d) (HTMLElement (body d))"

text \<open>
  \<^verbatim>\<open>start()\<close>: the settings are those of the instance, the style sheet is outside the
  document tree; the scan of \<^verbatim>\<open>document.body\<close> runs, and the observer is connected once
  the scan has returned.
\<close>

definition start :: "plugin \<Rightarrow> dom \<Rightarrow> plugin \<times> outcome" where
  "start this d =
     (case processContainer this d (HTMLElement (body d)) of
        Inl thrown \<Rightarrow> (this, Inl thrown)
      | Inr d' \<Rightarrow> (this\<lparr>observer := True\<rparr>, Inr d'))"

definition stop :: "plugin \<Rightarrow> dom \<Rightarrow> plugin \<times> dom" where
  "stop this d = (this\<lparr>observer := False\<rparr>, clear_all d)"

text \<open>
  The observer's callback, for the added nodes of the mutation records it is handed, in
  order.
\<close>

definition observerCallback :: "plugin \<Rightarrow> dom \<Rightarrow> node list \<Rightarrow> outcome" where
  "observerCallback this d addedNodes =
     forEach addedNodes
       (\<lambda>dd n. case n of OtherNode \<Rightarrow> Inr dd
                | HTMLElement c \<Rightarrow> processContainer this dd (HTMLElement c))
       d"

subsection \<open>Version 1.0.0\<close>

text \<open>
  The 1.0.0 build of the plugin, kept in the repository beside the current one: its
  \<^verbatim>\<open>hideAndEmbed\<close> and \<^verbatim>\<open>processElement\<close>. Its detection methods are those above.
\<close>

definition hideAndEmbed_1_0_0 :: "plugin \<Rightarrow> dom \<Rightarrow> nat \<Rightarrow> outcome" where
  "hideAndEmbed_1_0_0 this d el =
     (let wrapper =
            (case closest d el [ClassContains ''imageWrapper'', ClassContains ''gifFavorite'',
                                ClassContains ''embedMedia''] of
               None \<Rightarrow> el
             | Some w \<Rightarrow> w);
          insertTarget = nullish (closest d wrapper [IdStartsWith ''message-accessories''])
                           (parentElement d wrapper);
          d1 = update d wrapper (\<lambda>x. x\<lparr>display := ''none''\<rparr>);
          (container, d2) = createElement d1 ''div'';
          d3 = update d2 container (\<lambda>x. x\<lparr>btgEmbed := Some ''1''\<rparr>);
          d4 = addEventListener d3 container ''click'' (Reveal_1_0_0 wrapper container)
      in (case insertTarget of
            None \<Rightarrow> Inl (TypeError, d4)
          | Some target \<Rightarrow> Inr (appendChild d4 target container)))"

definition processElement_1_0_0 :: "plugin \<Rightarrow> dom \<Rightarrow> nat \<Rightarrow> outcome" where
  "processElement_1_0_0 this d el =
     (if truthy (btgDone (props d el)) then Inr d
      else
        let urls =
              filter truthy
                [src (props d el),
                 currentSrc (props d el),
                 href (props d el),
                 dataOriginalSrc (props d el),
                 (case closest d el [Tag ''a''] of None \<Rightarrow> None | Some a \<Rightarrow> href (props d a))]
        in
        if \<not> some urls (isGifUrl this) then Inr d
        else if \<not> some urls (isBlocked this) then Inr d
        else hideAndEmbed_1_0_0 this (update d el (\<lambda>x. x\<lparr>btgDone := Some ''1''\<rparr>)) el)"

section \<open>Notions used in the statements and proofs\<close>

section \<open>Vocabulary of the specification\<close>

text \<open>\<open>s\<close> contains \<open>w\<close> as a substring.\<close>

definition has_substring :: "string \<Rightarrow> string \<Rightarrow> bool" where
  "has_substring s w = (\<exists>p q. s = p @ w @ q)"

definition static :: "element \<Rightarrow> element" where
  "static e = e\<lparr>btgDone := None, btgOwnerDone := None, btgClickBlocked := None,
                btgEmbed := None, display := [], pointerEvents := [], listeners := []\<rparr>"

definition settled :: "plugin \<Rightarrow> dom \<Rightarrow> nat \<Rightarrow> bool" where
  "settled this d el =
     (truthy (btgDone (props d el)) \<or>
      \<not> some (urls_of d el) (isGifUrl this) \<or>
      \<not> some (urls_of d el) (isBlocked this) \<or>
      (isInGifPicker d el \<and> \<not> blockInPicker this))"

definition kept :: "element \<Rightarrow> element \<Rightarrow> bool" where
  "kept e e' =
     (static e' = static e \<and> btgEmbed e' = btgEmbed e \<and> listeners e' = listeners e \<and>
      (truthy (btgDone e) \<longrightarrow> truthy (btgDone e')) \<and>
      (truthy (btgOwnerDone e) \<longrightarrow> truthy (btgOwnerDone e')))"

definition ext :: "dom \<Rightarrow> dom \<Rightarrow> bool" where
  "ext d d' =
     (body d' = body d \<and>
      set (ids (tree d)) \<subseteq> set (ids (tree d')) \<and>
      (\<forall>j \<in> set (ids (tree d)).
          ancestors (tree d') j = ancestors (tree d) j \<and> kept (props d j) (props d' j)) \<and>
      (\<forall>j \<in> set (ids (tree d')). j \<notin> set (ids (tree d)) \<longrightarrow> tagName (props d' j) = ''div'') \<and>
      (\<forall>r \<in> set (ids (tree d)). \<forall>j \<in> set (descendants (tree d') r).
          j \<in> set (ids (tree d)) \<longrightarrow> j \<in> set (descendants (tree d) r)))"

definition dyn :: "dom \<Rightarrow> dom \<Rightarrow> bool" where
  "dyn d d' =
     (tree d' = tree d \<and> body d' = body d \<and>
      (\<forall>j \<in> set (ids (tree d)). kept (props d j) (props d' j)))"

definition wrapper_of :: "dom \<Rightarrow> nat \<Rightarrow> bool \<Rightarrow> nat" where
  "wrapper_of d el inPicker =
     (if inPicker then el
      else (case closest d el [ClassContains ''imageWrapper'', ClassContains ''embedMedia''] of
              None \<Rightarrow> el
            | Some w \<Rightarrow> w))"

definition insertTarget_of :: "dom \<Rightarrow> nat \<Rightarrow> bool \<Rightarrow> nat option \<Rightarrow> nat option" where
  "insertTarget_of d el inPicker owner =
     (if inPicker then nullish owner (parentElement d el)
      else nullish (closest d (wrapper_of d el inPicker) [IdStartsWith ''message-accessories''])
             (parentElement d (wrapper_of d el inPicker)))"

definition hidden :: "dom \<Rightarrow> nat \<Rightarrow> bool \<Rightarrow> nat option \<Rightarrow> dom" where
  "hidden d wrapper inPicker owner =
     (let d1 = update d wrapper (\<lambda>x. x\<lparr>display := ''none''\<rparr>)
      in if inPicker
         then (case owner of None \<Rightarrow> d1
               | Some ow \<Rightarrow>
                   update (update d1 ow (\<lambda>x. x\<lparr>btgClickBlocked := Some ''1''\<rparr>)) ow
                     (\<lambda>x. x\<lparr>pointerEvents := ''none''\<rparr>))
         else d1)"

definition container_element :: "nat \<Rightarrow> nat option \<Rightarrow> bool \<Rightarrow> nat \<Rightarrow> element" where
  "container_element wrapper owner inPicker c =
     (new_element ''div'')
       \<lparr>className := (if inPicker then ''btg-compact'' else []),
        btgEmbed := Some ''1'',
        listeners :=
          (''click'', Reveal wrapper owner inPicker c) #
          (if inPicker
           then map (\<lambda>evt. (evt, StopPropagation))
                  [''mouseover'', ''mouseenter'', ''mousemove'', ''mouseout'', ''mouseleave'']
           else [])\<rparr>"

definition built :: "dom \<Rightarrow> nat \<Rightarrow> bool \<Rightarrow> nat option \<Rightarrow> dom" where
  "built d el inPicker owner =
     (let w = wrapper_of d el inPicker; d2 = hidden d w inPicker owner
      in d2\<lparr>props := (props d2)(fresh d := container_element w owner inPicker (fresh d))\<rparr>)"

definition static_sel :: "selector \<Rightarrow> bool" where
  "static_sel sel = (\<forall>s \<in> set sel. \<forall>k. s \<noteq> HasData k)"

definition marked :: "dom \<Rightarrow> nat \<Rightarrow> dom" where
  "marked d el = update d el (\<lambda>x. x\<lparr>btgDone := Some ''1''\<rparr>)"

definition owned :: "dom \<Rightarrow> nat option \<Rightarrow> dom" where
  "owned d owner =
     (case owner of None \<Rightarrow> d | Some ow \<Rightarrow> update d ow (\<lambda>x. x\<lparr>btgOwnerDone := Some ''1''\<rparr>))"

definition candidates :: "dom \<Rightarrow> nat \<Rightarrow> nat list" where
  "candidates d c =
     fold (\<lambda>el seen. set_add seen el)
       (querySelectorAll d c [Tag ''img'', Tag ''video'', AnchorWithHref])
       (if matches d c [Tag ''img'', Tag ''video'', AnchorWithHref] then set_add [] c else [])"

text \<open>Example documents.\<close>

definition host_element :: "string \<Rightarrow> string \<Rightarrow> string \<Rightarrow> element" where
  "host_element t c i = (new_element t)\<lparr>className := c, idAttr := i\<rparr>"

definition blocked_img :: element where
  "blocked_img =
     (new_element ''img'')\<lparr>src := Some ''https://media.tenor.com/abc/benjammin-dance.gif''\<rparr>"

text \<open>
  A message: \<^verbatim>\<open>html > body > div#message-accessories-1 > div.imageWrapper_abc > img\<close>,
  the image a blocked GIF.
\<close>

definition message_doc :: dom where
  "message_doc =
     \<lparr>tree = Nd 0 [Nd 1 [Nd 2 [Nd 3 [Nd 4 []]]]],
      props = (\<lambda>_. new_element ''div'')
        (0 := host_element ''html'' [] [],
         1 := host_element ''body'' [] [],
         2 := host_element ''div'' [] ''message-accessories-1'',
         3 := host_element ''div'' ''imageWrapper_abc'' [],
         4 := blocked_img),
      body = 1\<rparr>"

text \<open>
  \<^verbatim>\<open>html > body > div.imageWrapper_abc > div.gifFavorite_abc > img\<close>, the image a
  blocked GIF.
\<close>

definition favorite_doc :: dom where
  "favorite_doc =
     \<lparr>tree = Nd 0 [Nd 1 [Nd 2 [Nd 3 [Nd 4 []]]]],
      props = (\<lambda>_. new_element ''div'')
        (0 := host_element ''html'' [] [],
         1 := host_element ''body'' [] [],
         2 := host_element ''div'' ''imageWrapper_abc'' [],
         3 := host_element ''div'' ''gifFavorite_abc'' [],
         4 := blocked_img),
      body = 1\<rparr>"

text \<open>A blocked image that has no parent: an added node removed again before the
  observer's callback runs.\<close>

definition detached_img :: dom where
  "detached_img = \<lparr>tree = Nd 0 [], props = (\<lambda>_. blocked_img), body = 0\<rparr>"

text \<open>
  The picker: \<^verbatim>\<open>html > body > div.gifPicker_a > div.results__b > div.result__c > img\<close>,
  the image a blocked GIF.
\<close>

definition picker_doc :: dom where
  "picker_doc =
     \<lparr>tree = Nd 0 [Nd 1 [Nd 2 [Nd 3 [Nd 4 [Nd 5 []]]]]],
      props = (\<lambda>_. new_element ''div'')
        (0 := host_element ''html'' [] [],
         1 := host_element ''body'' [] [],
         2 := host_element ''div'' ''gifPicker_a'' [],
         3 := host_element ''div'' ''results__b'' [],
         4 := host_element ''div'' ''result__c'' [],
         5 := blocked_img),
      body = 1\<rparr>"

text \<open>
  \<^verbatim>\<open>html > body > div.imageWrapper_a > a.imageWrapper_b[href]\<close>: a link that is an
  image wrapper itself, inside another one.
\<close>

definition wrapper_link_doc :: dom where
  "wrapper_link_doc =
     \<lparr>tree = Nd 0 [Nd 1 [Nd 2 [Nd 3 []]]],
      props = (\<lambda>_. new_element ''div'')
        (0 := host_element ''html'' [] [],
         1 := host_element ''body'' [] [],
         2 := host_element ''div'' ''imageWrapper_a'' [],
         3 := (host_element ''a'' ''imageWrapper_b'' [])
                \<lparr>href := Some ''https://media.tenor.com/abc/benjammin-dance.gif''\<rparr>),
      body = 1\<rparr>"

text \<open>
  A blocked gallery that has no parent: \<^verbatim>\<open>div.imageWrapper_abc > img, img\<close>, both
  images blocked GIFs, the wrapper an added node removed again before the observer's
  callback runs.
\<close>

definition detached_gallery :: dom where
  "detached_gallery =
     \<lparr>tree = Nd 0 [Nd 1 [], Nd 2 []],
      props = (\<lambda>_. new_element ''div'')
        (0 := host_element ''div'' ''imageWrapper_abc'' [],
         1 := blocked_img,
         2 := blocked_img),
      body = 0\<rparr>"

text \<open>
  The first element of a chain that satisfies a test: the nearest one when the chain
  runs from an element towards the root.
\<close>

fun nearest :: "(nat \<Rightarrow> bool) \<Rightarrow> nat list \<Rightarrow> nat option" where
  "nearest P [] = None"
| "nearest P (a # up) = (if P a then Some a else nearest P up)"

text \<open>
  The owner unit in the specification's words, the chain being the element's inclusive
  ancestors: the element itself, then its parent, and so on up to the root.
\<close>

definition owner_unit :: "dom \<Rightarrow> nat \<Rightarrow> bool \<Rightarrow> nat option" where
  "owner_unit d el inPicker =
     (let chain = ancestors (tree d) el;
          parent = (case tl chain of [] \<Rightarrow> None | p # _ \<Rightarrow> Some p)
      in if inPicker
         then first_some
                [nearest (\<lambda>a. has_substring (className (props d a)) ''result__'') chain,
                 parent]
         else first_some
                [nearest (\<lambda>a. has_substring (className (props d a)) ''imageWrapper'') chain,
                 nearest (\<lambda>a. has_substring (className (props d a)) ''embedWrapper'') chain,
                 nearest (\<lambda>a. tagName (props d a) = ''article'') chain,
                 nearest (\<lambda>a. prefix ''message-accessories'' (idAttr (props d a))) chain,
                 parent])"

text \<open>
  The owner unit as the claim words it, with "ancestor" read as the DOM standard defines
  the word: the chain searched is that of the proper ancestors, the element left out.
\<close>

definition owner_as_claimed :: "dom \<Rightarrow> nat \<Rightarrow> bool \<Rightarrow> nat option" where
  "owner_as_claimed d el inPicker =
     (let chain = tl (ancestors (tree d) el);
          parent = (case chain of [] \<Rightarrow> None | p # _ \<Rightarrow> Some p)
      in if inPicker
         then first_some
                [nearest (\<lambda>a. has_substring (className (props d a)) ''result__'') chain,
                 parent]
         else first_some
                [nearest (\<lambda>a. has_substring (className (props d a)) ''imageWrapper'') chain,
                 nearest (\<lambda>a. has_substring (className (props d a)) ''embedWrapper'') chain,
                 nearest (\<lambda>a. tagName (props d a) = ''article'') chain,
                 nearest (\<lambda>a. prefix ''message-accessories'' (idAttr (props d a))) chain,
                 parent])"

text \<open>The placeholders of a document: \<^verbatim>\<open>document.querySelectorAll("[data-btg-embed]")\<close>.\<close>

definition placeholders :: "dom \<Rightarrow> nat list" where
  "placeholders d = document_querySelectorAll d [HasData BtgEmbed]"

fun captured_owner :: "listener \<Rightarrow> nat option" where
  "captured_owner (Reveal w ow p c) = ow"
| "captured_owner (Reveal_1_0_0 w c) = None"
| "captured_owner StopPropagation = None"

text \<open>
  The owner unit a placeholder was built for: the \<^verbatim>\<open>owner\<close> that the click listener of
  its reveal control has captured.
\<close>

definition owner_of :: "dom \<Rightarrow> nat \<Rightarrow> nat option" where
  "owner_of d c =
     (case filter (\<lambda>tl. fst tl = ''click'') (listeners (props d c)) of
        [] \<Rightarrow> None
      | l # _ \<Rightarrow> captured_owner (snd l))"

text \<open>A placeholder is an ancestor of itself only.\<close>

definition childless :: "dom \<Rightarrow> nat \<Rightarrow> bool" where
  "childless d c = (\<forall>j. c \<in> set (ancestors (tree d) j) \<longrightarrow> j = c)"

definition placeholder_ok :: "dom \<Rightarrow> nat \<Rightarrow> bool" where
  "placeholder_ok d c =
     (tagName (props d c) = ''div'' \<and>
      childless d c \<and>
      (\<exists>w ow p. listeners (props d c) = listeners (container_element w (Some ow) p c) \<and>
         ow \<in> set (ids (tree d)) \<and> btgEmbed (props d ow) = None \<and>
         truthy (btgOwnerDone (props d ow))))"

text \<open>
  What holds of a document between two calls into the plugin: element references are
  unique, the root is no placeholder, every placeholder is a childless \<^verbatim>\<open>div\<close> that
  carries the listeners \<^verbatim>\<open>hideAndEmbed\<close> gave it for an owner that is in the document and
  marked, and no two placeholders have the same owner.
\<close>

definition consistent :: "dom \<Rightarrow> bool" where
  "consistent d =
     (distinct (ids (tree d)) \<and>
      btgEmbed (props d (nid (tree d))) = None \<and>
      (\<forall>c \<in> set (placeholders d). placeholder_ok d c) \<and>
      (\<forall>c \<in> set (placeholders d). \<forall>c' \<in> set (placeholders d).
          owner_of d c = owner_of d c' \<longrightarrow> c = c'))"

text \<open>What a write of the reveal listener or of the clearing loops leaves of an element.\<close>

definition restyled :: "element \<Rightarrow> element \<Rightarrow> bool" where
  "restyled e e' =
     (static e' = static e \<and> btgEmbed e' = btgEmbed e \<and> listeners e' = listeners e \<and>
      btgDone e' = btgDone e)"

definition restyle :: "dom \<Rightarrow> dom \<Rightarrow> bool" where
  "restyle d d' = (tree d' = tree d \<and> body d' = body d \<and> (\<forall>j. restyled (props d j) (props d' j)))"

text \<open>The document that the 1.1.0 reveal listener leaves.\<close>

definition revealed :: "dom \<Rightarrow> nat \<Rightarrow> nat option \<Rightarrow> bool \<Rightarrow> nat \<Rightarrow> dom" where
  "revealed d w ow p c = snd (handle (Reveal w ow p c) (\<lparr>etype = ''click'', propagationStopped = False\<rparr>, d))"

text \<open>The four loops of \<^verbatim>\<open>rescan()\<close> and \<^verbatim>\<open>stop()\<close>, one by one.\<close>

definition remove_placeholders :: "dom \<Rightarrow> dom" where
  "remove_placeholders d =
     fold (\<lambda>e dd. remove dd e) (document_querySelectorAll d [HasData BtgEmbed]) d"

definition restore_one :: "nat \<Rightarrow> dom \<Rightarrow> dom" where
  "restore_one el dd =
     (let a = update dd el (\<lambda>x. x\<lparr>display := []\<rparr>);
          b = update a el (\<lambda>x. x\<lparr>btgDone := None\<rparr>)
      in (case closest b el [ClassContains ''imageWrapper'', ClassContains ''gifFavorite'',
                            ClassContains ''embedMedia''] of
            None \<Rightarrow> b
          | Some wrapper \<Rightarrow> update b wrapper (\<lambda>x. x\<lparr>display := []\<rparr>)))"

definition clear_markers :: "dom \<Rightarrow> dom" where
  "clear_markers d1 =
     (let d2 = fold restore_one (document_querySelectorAll d1 [HasData BtgDone]) d1;
          d3 = fold (\<lambda>el dd. update dd el (\<lambda>x. x\<lparr>btgOwnerDone := None\<rparr>))
                (document_querySelectorAll d2 [HasData BtgOwnerDone]) d2
      in fold (\<lambda>el dd.
                  update (update dd el (\<lambda>x. x\<lparr>pointerEvents := []\<rparr>)) el
                    (\<lambda>x. x\<lparr>btgClickBlocked := None\<rparr>))
                (document_querySelectorAll d3 [HasData BtgClickBlocked]) d3)"

text \<open>What the marker loops leave of an element: all but styles and markers.\<close>

definition unmarked :: "element \<Rightarrow> element \<Rightarrow> bool" where
  "unmarked e e' =
     (static e' = static e \<and> btgEmbed e' = btgEmbed e \<and> listeners e' = listeners e)"

definition unmark :: "dom \<Rightarrow> dom \<Rightarrow> bool" where
  "unmark d d' = (tree d' = tree d \<and> body d' = body d \<and> (\<forall>j. unmarked (props d j) (props d' j)))"

text \<open>
  A session. The host calls \<^verbatim>\<open>start()\<close> and \<^verbatim>\<open>stop()\<close>; the browser delivers added
  nodes to the observer while it is connected; the user clicks the reveal control of a
  placeholder that is in the document; the settings panel reports a change, on which
  \<^verbatim>\<open>onChange\<close> stores the value and calls \<^verbatim>\<open>rescan()\<close>. A call that throws leaves
  the document as the throw found it, and the session goes on.
\<close>

datatype setting = BlockInPicker | CaseSensitive

fun set_setting :: "plugin \<Rightarrow> setting \<Rightarrow> bool \<Rightarrow> plugin" where
  "set_setting this BlockInPicker v = this\<lparr>blockInPicker := v\<rparr>"
| "set_setting this CaseSensitive v = this\<lparr>caseSensitive := v\<rparr>"

text \<open>The \<^verbatim>\<open>onChange\<close> callback of \<^verbatim>\<open>getSettingsPanel()\<close>.\<close>

definition onChange :: "plugin \<Rightarrow> dom \<Rightarrow> setting \<Rightarrow> bool \<Rightarrow> plugin \<times> outcome" where
  "onChange this d k v = (let this' = set_setting this k v in (this', rescan this' d))"

datatype action =
    Start
  | Stop
  | Mutation "node list"
  | Click nat
  | Change setting bool

fun step :: "plugin \<times> dom \<Rightarrow> action \<Rightarrow> plugin \<times> dom" where
  "step (this, d) Start = (let (this', r) = start this d in (this', dom_of r))"
| "step (this, d) Stop = stop this d"
| "step (this, d) (Mutation ns) =
     (if observer this then (this, dom_of (observerCallback this d ns)) else (this, d))"
| "step (this, d) (Click c) =
     (if c \<in> set (placeholders d) then (this, snd (dispatchEvent d c ''click'')) else (this, d))"
| "step (this, d) (Change k v) = (let (this', r) = onChange this d k v in (this', dom_of r))"

definition run :: "action list \<Rightarrow> plugin \<times> dom \<Rightarrow> plugin \<times> dom" where
  "run acts s = foldl step s acts"

text \<open>
  A message with two blocked images in one owner unit:
  \<^verbatim>\<open>html > body > article > img, img\<close>.
\<close>

definition gallery_doc :: dom where
  "gallery_doc =
     \<lparr>tree = Nd 0 [Nd 1 [Nd 2 [Nd 3 [], Nd 4 []]]],
      props = (\<lambda>_. new_element ''div'')
        (0 := host_element ''html'' [] [],
         1 := host_element ''body'' [] [],
         2 := host_element ''article'' [] [],
         3 := blocked_img,
         4 := blocked_img),
      body = 1\<rparr>"

section \<open>Properties\<close>

section \<open>Strings and detection\<close>

lemma startsWith_prefix: "startsWith h n \<longleftrightarrow> prefix n h"
  by (induction h n rule: startsWith.induct) auto

lemma includes_sublist: "includes_str h n \<longleftrightarrow> sublist n h"
proof (induction h)
  case Nil
  show ?case by auto
next
  case (Cons a h)
  show ?case
    by (simp only: includes_str.simps startsWith_prefix Cons.IH sublist_Cons_right)
qed

lemma includes_has_substring: "includes_str h n = has_substring h n"
  by (simp add: includes_sublist sublist_def has_substring_def)

lemma has_substring_code [code]: "has_substring s w = includes_str s w"
  by (simp add: includes_has_substring)

lemma some_iff: "some xs p \<longleftrightarrow> (\<exists>x \<in> set xs. p x)"
  by (induction xs) auto

lemma has_substring_empty: "w \<noteq> [] \<Longrightarrow> \<not> has_substring [] w"
  by (simp add: has_substring_def)

text \<open>
  C7. \<^verbatim>\<open>isGifUrl(url)\<close> is true exactly when the URL is present and its lower-cased
  form contains one of the six patterns of \<^verbatim>\<open>GIF_PATTERNS\<close>; it is false for an absent
  URL and for the empty one; and two instances of the plugin, whatever their settings,
  give the same answer.
\<close>

theorem isGifUrl_spec:
  "isGifUrl this url =
     (\<exists>u. url = Some u \<and>
        (has_substring (toLowerCase u) ''.gif'' \<or>
         has_substring (toLowerCase u) ''tenor.com'' \<or>
         has_substring (toLowerCase u) ''giphy.com'' \<or>
         has_substring (toLowerCase u) ''media.discordapp.net'' \<or>
         has_substring (toLowerCase u) ''media.tenor.com'' \<or>
         has_substring (toLowerCase u) ''i.imgur.com''))
   \<and> isGifUrl this None = False
   \<and> isGifUrl this (Some []) = False
   \<and> isGifUrl this url = isGifUrl that url"
proof -
  have "isGifUrl this url =
     (\<exists>u. url = Some u \<and>
        (has_substring (toLowerCase u) ''.gif'' \<or>
         has_substring (toLowerCase u) ''tenor.com'' \<or>
         has_substring (toLowerCase u) ''giphy.com'' \<or>
         has_substring (toLowerCase u) ''media.discordapp.net'' \<or>
         has_substring (toLowerCase u) ''media.tenor.com'' \<or>
         has_substring (toLowerCase u) ''i.imgur.com''))"
  proof (cases url)
    case None
    then show ?thesis by (simp add: isGifUrl_def)
  next
    case (Some u)
    show ?thesis
    proof (cases "u = []")
      case True
      with Some show ?thesis
        by (simp add: isGifUrl_def toLowerCase_def has_substring_empty)
    next
      case False
      with Some show ?thesis
        by (simp add: isGifUrl_def GIF_PATTERNS_def includes_has_substring Let_def)
    qed
  qed
  moreover have "isGifUrl this None = False" "isGifUrl this (Some []) = False"
    by (simp_all add: isGifUrl_def)
  moreover have "isGifUrl this url = isGifUrl that url"
    by (simp add: isGifUrl_def)
  ultimately show ?thesis by blast
qed

text \<open>
  C4. \<^verbatim>\<open>isBlocked(url)\<close> is true exactly when the URL is present and contains a word of
  \<^verbatim>\<open>BLOCKED_WORDS\<close> as a substring, the URL and the word compared as they are when
  \<^verbatim>\<open>caseSensitive\<close> is set and both lower-cased when it is not; it is false for an absent
  URL and for the empty one. With \<^verbatim>\<open>caseSensitive\<close> set, a URL that spells the word
  \<^verbatim>\<open>Benjammin\<close> is not blocked; without it, the same URL is.
\<close>

theorem isBlocked_spec:
  "isBlocked this url =
     (\<exists>u. url = Some u \<and>
        (\<exists>word \<in> set BLOCKED_WORDS.
           if caseSensitive this then has_substring u word
           else has_substring (toLowerCase u) (toLowerCase word)))
   \<and> isBlocked this None = False
   \<and> isBlocked this (Some []) = False
   \<and> isBlocked (this\<lparr>caseSensitive := True\<rparr>)
        (Some ''https://media.tenor.com/abc/Benjammin-dance.gif'') = False
   \<and> isBlocked (this\<lparr>caseSensitive := False\<rparr>)
        (Some ''https://media.tenor.com/abc/Benjammin-dance.gif'') = True"
proof -
  have low: "toLowerCase ''benjammin'' = ''benjammin''"
    by (simp add: toLowerCase_def toLowerCase_char_def)
  have "isBlocked this url =
     (\<exists>u. url = Some u \<and>
        (\<exists>word \<in> set BLOCKED_WORDS.
           if caseSensitive this then has_substring u word
           else has_substring (toLowerCase u) (toLowerCase word)))"
  proof (cases url)
    case None
    then show ?thesis by (simp add: isBlocked_def)
  next
    case (Some u)
    show ?thesis
    proof (cases "u = []")
      case True
      with Some show ?thesis
        by (simp add: isBlocked_def BLOCKED_WORDS_def low toLowerCase_def[of "[]"]
            has_substring_empty)
    next
      case False
      with Some show ?thesis
        by (simp add: isBlocked_def BLOCKED_WORDS_def includes_has_substring Let_def)
    qed
  qed
  moreover have "isBlocked this None = False" "isBlocked this (Some []) = False"
    by (simp_all add: isBlocked_def)
  moreover have "isBlocked (this\<lparr>caseSensitive := True\<rparr>)
        (Some ''https://media.tenor.com/abc/Benjammin-dance.gif'') = False"
    by (simp add: isBlocked_def BLOCKED_WORDS_def)
  moreover have "isBlocked (this\<lparr>caseSensitive := False\<rparr>)
        (Some ''https://media.tenor.com/abc/Benjammin-dance.gif'') = True"
    by (simp add: isBlocked_def BLOCKED_WORDS_def toLowerCase_def toLowerCase_char_def)
  ultimately show ?thesis by blast
qed

lemma first_path_in: "first_path ps \<noteq> [] \<Longrightarrow> first_path ps \<in> set ps"
  by (induction ps) auto

lemma first_path_Nil_iff: "first_path ps = [] \<longleftrightarrow> (\<forall>p \<in> set ps. p = [])"
  by (induction ps) auto

lemma first_path_append_Nil [simp]: "first_path (ps @ [[]]) = first_path ps"
  by (induction ps) auto

lemma first_path_cong_map:
  "(\<And>t. t \<in> set ts \<Longrightarrow> f t = g t) \<Longrightarrow> first_path (map f ts) = first_path (map g ts)"
  by (induction ts) auto

lemma ancestors_in_ids: "set (ancestors t j) \<subseteq> set (ids t)"
proof (induction t)
  case (Nd i ts)
  show ?case
  proof (cases "i = j")
    case True
    then show ?thesis by simp
  next
    case False
    show ?thesis
    proof (cases "first_path (map (\<lambda>t. ancestors t j) ts) = []")
      case True
      with False show ?thesis by (simp add: Let_def)
    next
      case ne: False
      then obtain t where t: "t \<in> set ts" "first_path (map (\<lambda>t. ancestors t j) ts) = ancestors t j"
        using first_path_in[OF ne] by auto
      with Nd.IH[OF t(1)] False ne show ?thesis
        by (auto simp: Let_def)
    qed
  qed
qed

lemma ancestors_Nil_iff: "ancestors t j = [] \<longleftrightarrow> j \<notin> set (ids t)"
proof (induction t)
  case (Nd i ts)
  show ?case
  proof (cases "i = j")
    case True
    then show ?thesis by simp
  next
    case False
    have "first_path (map (\<lambda>t. ancestors t j) ts) = [] \<longleftrightarrow> (\<forall>t \<in> set ts. j \<notin> set (ids t))"
      using Nd.IH by (simp add: first_path_Nil_iff)
    with False show ?thesis
      by (auto simp: Let_def)
  qed
qed

lemma ancestors_hd: "ancestors t j \<noteq> [] \<Longrightarrow> hd (ancestors t j) = j"
proof (induction t)
  case (Nd i ts)
  show ?case
  proof (cases "i = j")
    case True
    then show ?thesis by simp
  next
    case False
    with Nd.prems have ne: "first_path (map (\<lambda>t. ancestors t j) ts) \<noteq> []"
      by (auto simp: Let_def split: if_splits)
    then obtain t where t: "t \<in> set ts" "first_path (map (\<lambda>t. ancestors t j) ts) = ancestors t j"
      using first_path_in[OF ne] by auto
    with Nd.IH[OF t(1)] False ne show ?thesis
      by (auto simp: Let_def)
  qed
qed

lemma ancestors_append_node: "j \<noteq> c \<Longrightarrow> ancestors (append_node p c t) j = ancestors t j"
proof (induction t)
  case (Nd i ts)
  have eq: "first_path (map (\<lambda>t. ancestors t j) (map (append_node p c) ts)) =
        first_path (map (\<lambda>t. ancestors t j) ts)"
    unfolding map_map comp_def
    by (rule first_path_cong_map) (use Nd in auto)
  from Nd.prems show ?case
    by (simp add: eq del: map_map)
qed

lemma ids_append_node_filter:
  "filter (\<lambda>x. x \<noteq> c) (ids (append_node p c t)) = filter (\<lambda>x. x \<noteq> c) (ids t)"
proof (induction t)
  case (Nd i ts)
  have "concat (map (\<lambda>t. filter (\<lambda>x. x \<noteq> c) (ids (append_node p c t))) ts) =
        concat (map (\<lambda>t. filter (\<lambda>x. x \<noteq> c) (ids t)) ts)"
    using Nd.IH by (induction ts) auto
  then show ?case
    by (simp add: filter_concat comp_def)
qed

lemma ids_append_node_set:
  "set (ids (append_node p c t)) = set (ids t) \<union> (if p \<in> set (ids t) then {c} else {})"
proof (induction t)
  case (Nd i ts)
  then show ?case by (auto split: if_splits)
qed

lemma first_some_append_None [simp]: "first_some (xs @ [None]) = first_some xs"
  by (induction xs) (auto split: option.splits)

lemma first_some_map_option:
  "first_some (map (\<lambda>t. map_option f (g t)) ts) = map_option f (first_some (map g ts))"
  by (induction ts) (auto split: option.splits)

lemma first_some_cong_map:
  "(\<And>t. t \<in> set ts \<Longrightarrow> f t = g t) \<Longrightarrow> first_some (map f ts) = first_some (map g ts)"
  by (induction ts) (auto split: option.splits)

lemma subtree_append_node:
  "r \<noteq> c \<Longrightarrow> subtree (append_node p c t) r = map_option (append_node p c) (subtree t r)"
proof (induction t)
  case (Nd i ts)
  have "first_some (map (\<lambda>t. subtree t r) (map (append_node p c) ts)) =
        first_some (map (\<lambda>t. map_option (append_node p c) (subtree t r)) ts)"
    unfolding map_map comp_def
    by (rule first_some_cong_map) (use Nd in auto)
  with Nd.prems show ?case
    by (simp add: first_some_map_option del: map_map)
qed

lemma subtree_nid: "subtree t r = Some s \<Longrightarrow> nid s = r"
proof (induction t)
  case (Nd i ts)
  show ?case
  proof (cases "i = r")
    case True
    with Nd.prems show ?thesis by auto
  next
    case False
    with Nd.prems have "first_some (map (\<lambda>t. subtree t r) ts) = Some s" by simp
    then obtain t where "t \<in> set ts" "subtree t r = Some s"
      by (induction ts) (auto split: option.splits)
    with Nd.IH show ?thesis by blast
  qed
qed

lemma subtree_ids: "subtree t r = Some s \<Longrightarrow> set (ids s) \<subseteq> set (ids t)"
proof (induction t)
  case (Nd i ts)
  show ?case
  proof (cases "i = r")
    case True
    with Nd.prems show ?thesis by auto
  next
    case False
    with Nd.prems have "first_some (map (\<lambda>t. subtree t r) ts) = Some s" by simp
    then obtain t where "t \<in> set ts" "subtree t r = Some s"
      by (induction ts) (auto split: option.splits)
    with Nd.IH show ?thesis by fastforce
  qed
qed

lemma ids_hd: "ids t = nid t # tl (ids t)"
  by (cases t) simp

lemma nid_append_node [simp]: "nid (append_node p c t) = nid t"
  by (cases t) simp

lemma descendants_in_ids: "set (descendants t r) \<subseteq> set (ids t)"
proof (cases "subtree t r")
  case None
  then show ?thesis by (simp add: descendants_def)
next
  case (Some s)
  have "set (tl (ids s)) \<subseteq> set (ids s)" by (cases s) auto
  with subtree_ids[OF Some] Some show ?thesis by (auto simp: descendants_def)
qed

lemma descendants_append_node:
  assumes "r \<noteq> c"
  shows "filter (\<lambda>x. x \<noteq> c) (descendants (append_node p c t) r) =
         filter (\<lambda>x. x \<noteq> c) (descendants t r)"
proof (cases "subtree t r")
  case None
  with assms show ?thesis by (simp add: descendants_def subtree_append_node)
next
  case (Some s)
  have r: "nid s = r" using subtree_nid[OF Some] .
  have "filter (\<lambda>x. x \<noteq> c) (ids (append_node p c s)) = filter (\<lambda>x. x \<noteq> c) (ids s)"
    by (rule ids_append_node_filter)
  then have "filter (\<lambda>x. x \<noteq> c) (tl (ids (append_node p c s))) = filter (\<lambda>x. x \<noteq> c) (tl (ids s))"
    using assms r by (subst (asm) ids_hd, subst (asm) (2) ids_hd) simp
  with Some assms show ?thesis by (simp add: descendants_def subtree_append_node)
qed

lemma distinct_append_node:
  "distinct (ids t) \<Longrightarrow> c \<notin> set (ids t) \<Longrightarrow> distinct (ids (append_node p c t))"
proof (induction t)
  case (Nd i ts)
  have kids: "distinct (concat (map ids (map (append_node p c) ts)))"
    if "distinct (concat (map ids ts))" "c \<notin> set (concat (map ids ts))"
       "\<And>t. t \<in> set ts \<Longrightarrow> distinct (ids t) \<Longrightarrow> c \<notin> set (ids t) \<Longrightarrow> distinct (ids (append_node p c t))"
    using that
  proof (induction ts)
    case Nil
    then show ?case by simp
  next
    case (Cons a ts)
    then show ?case
      by (auto simp: ids_append_node_set split: if_splits)
  qed
  have "distinct (concat (map ids (map (append_node p c) ts)))"
    using Nd by (intro kids) auto
  moreover have "i \<notin> set (concat (map ids (map (append_node p c) ts)))"
    using Nd.prems by (auto simp: ids_append_node_set split: if_splits)
  moreover have "i = p \<Longrightarrow> c \<notin> set (concat (map ids (map (append_node p c) ts)))"
    using Nd.prems by (auto simp: ids_append_node_set split: if_splits)
  ultimately show ?case using Nd.prems by (auto simp del: map_map)
qed

lemma fold_max_ge: "x \<in> set xs \<Longrightarrow> x \<le> fold max xs (m::nat)"
proof (induction xs arbitrary: m)
  case Nil
  then show ?case by simp
next
  case (Cons a xs)
  have mono: "m \<le> fold max ys m" for ys and m :: nat
    by (induction ys arbitrary: m) (auto intro: order_trans[OF max.cobounded2])
  from Cons show ?case
    by (auto intro: order_trans[OF max.cobounded1 mono])
qed

lemma fresh_notin: "fresh d \<notin> set (ids (tree d))"
  using fold_max_ge[of "fresh d" "ids (tree d)" 0] by (auto simp: fresh_def)

lemma tree_update [simp]: "tree (update d el f) = tree d"
  by (simp add: update_def)

lemma body_update [simp]: "body (update d el f) = body d"
  by (simp add: update_def)

lemma props_update: "props (update d el f) j = (if j = el then f (props d el) else props d j)"
  by (simp add: update_def)

lemma fresh_update [simp]: "fresh (update d el f) = fresh d"
  by (simp add: fresh_def)

lemma kept_refl [simp]: "kept e e"
  by (simp add: kept_def)

lemma kept_trans: "kept a b \<Longrightarrow> kept b c \<Longrightarrow> kept a c"
  by (simp add: kept_def)

lemma kept_tagName: "kept e e' \<Longrightarrow> tagName e' = tagName e"
proof -
  assume "kept e e'"
  then have "tagName (static e') = tagName (static e)" by (simp add: kept_def)
  then show ?thesis by (simp add: static_def)
qed

lemma ext_refl: "ext d d"
  by (simp add: ext_def)

lemma ext_trans:
  assumes ab: "ext a b" and bc: "ext b c"
  shows "ext a c"
proof -
  have sub: "set (ids (tree a)) \<subseteq> set (ids (tree b))" "set (ids (tree b)) \<subseteq> set (ids (tree c))"
    using ab bc by (simp_all add: ext_def)
  have b1: "body c = body a"
    using ab bc by (simp add: ext_def)
  have c1: "ancestors (tree c) j = ancestors (tree a) j \<and> kept (props a j) (props c j)"
    if j: "j \<in> set (ids (tree a))" for j
  proof -
    from j sub have jb: "j \<in> set (ids (tree b))" by blast
    from ab j have "ancestors (tree b) j = ancestors (tree a) j \<and> kept (props a j) (props b j)"
      unfolding ext_def by blast
    moreover from bc jb have "ancestors (tree c) j = ancestors (tree b) j \<and> kept (props b j) (props c j)"
      unfolding ext_def by blast
    ultimately show ?thesis using kept_trans by auto
  qed
  have c2: "tagName (props c j) = ''div''"
    if j: "j \<in> set (ids (tree c))" "j \<notin> set (ids (tree a))" for j
  proof (cases "j \<in> set (ids (tree b))")
    case True
    with ab j have "tagName (props b j) = ''div''" unfolding ext_def by blast
    moreover from bc True have "kept (props b j) (props c j)"
      unfolding ext_def by blast
    ultimately show ?thesis by (simp add: kept_tagName)
  next
    case False
    with bc j show ?thesis unfolding ext_def by blast
  qed
  have c3: "j \<in> set (descendants (tree a) r)"
    if "r \<in> set (ids (tree a))" "j \<in> set (descendants (tree c) r)" "j \<in> set (ids (tree a))" for r j
  proof -
    from that sub have rb: "r \<in> set (ids (tree b))" and jb: "j \<in> set (ids (tree b))" by blast+
    from bc rb jb that(2) have "j \<in> set (descendants (tree b) r)"
      unfolding ext_def by blast
    with ab that show ?thesis unfolding ext_def by blast
  qed
  show ?thesis
    unfolding ext_def using b1 sub c1 c2 c3 by blast
qed

lemma ext_I:
  assumes b: "body d' = body d"
    and t: "tree d' = tree d \<or>
        (\<exists>t c. c \<notin> set (ids (tree d)) \<and> tree d' = append_node t c (tree d) \<and>
               tagName (props d' c) = ''div'')"
    and p: "\<And>j. j \<in> set (ids (tree d)) \<Longrightarrow> kept (props d j) (props d' j)"
  shows "ext d d'"
  using t
proof
  assume "tree d' = tree d"
  with b p show ?thesis by (simp add: ext_def)
next
  assume "\<exists>t c. c \<notin> set (ids (tree d)) \<and> tree d' = append_node t c (tree d) \<and>
               tagName (props d' c) = ''div''"
  then obtain t c where c: "c \<notin> set (ids (tree d))" and t': "tree d' = append_node t c (tree d)"
    and tg: "tagName (props d' c) = ''div''" by blast
  have anc: "ancestors (tree d') j = ancestors (tree d) j" if "j \<in> set (ids (tree d))" for j
  proof -
    from that c have "j \<noteq> c" by auto
    with t' show ?thesis by (simp add: ancestors_append_node)
  qed
  have new: "tagName (props d' j) = ''div''"
    if "j \<in> set (ids (tree d'))" "j \<notin> set (ids (tree d))" for j
    using that t' tg by (auto simp: ids_append_node_set split: if_splits)
  have desc: "j \<in> set (descendants (tree d) r)"
    if "r \<in> set (ids (tree d))" "j \<in> set (descendants (tree d') r)" "j \<in> set (ids (tree d))" for r j
  proof -
    from that c have "r \<noteq> c" "j \<noteq> c" by auto
    from that(2) \<open>j \<noteq> c\<close> t'
    have "j \<in> set (filter (\<lambda>x. x \<noteq> c) (descendants (append_node t c (tree d)) r))"
      by simp
    then have "j \<in> set (filter (\<lambda>x. x \<noteq> c) (descendants (tree d) r))"
      by (simp only: descendants_append_node[OF \<open>r \<noteq> c\<close>])
    then show ?thesis by simp
  qed
  have sub: "set (ids (tree d)) \<subseteq> set (ids (tree d'))"
    using t' by (auto simp: ids_append_node_set)
  show ?thesis
    unfolding ext_def using b sub anc p new desc by blast
qed

lemma static_simps [simp]:
  "static (e\<lparr>display := x\<rparr>) = static e"
  "static (e\<lparr>pointerEvents := x\<rparr>) = static e"
  "static (e\<lparr>btgDone := y\<rparr>) = static e"
  "static (e\<lparr>btgOwnerDone := y\<rparr>) = static e"
  "static (e\<lparr>btgClickBlocked := y\<rparr>) = static e"
  "static (e\<lparr>btgEmbed := y\<rparr>) = static e"
  "static (e\<lparr>listeners := z\<rparr>) = static e"
  by (simp_all add: static_def)

lemma closest_in_ids: "closest d el sel = Some a \<Longrightarrow> a \<in> set (ids (tree d)) \<and> el \<in> set (ids (tree d))"
proof -
  assume "closest d el sel = Some a"
  then have a: "a \<in> set (ancestors (tree d) el)"
    by (auto simp: closest_def find_Some_iff)
  then have "ancestors (tree d) el \<noteq> []" by auto
  with a show ?thesis using ancestors_in_ids ancestors_Nil_iff by blast
qed

lemma parentElement_in_ids:
  "parentElement d el = Some a \<Longrightarrow> a \<in> set (ids (tree d)) \<and> el \<in> set (ids (tree d))"
proof -
  assume "parentElement d el = Some a"
  then have a: "a \<in> set (ancestors (tree d) el)"
    by (auto simp: parentElement_def split: list.splits)
  then have "ancestors (tree d) el \<noteq> []" by auto
  with a show ?thesis using ancestors_in_ids ancestors_Nil_iff by blast
qed

lemma dyn_refl: "dyn d d"
  by (simp add: dyn_def)

lemma dyn_trans: "dyn a b \<Longrightarrow> dyn b c \<Longrightarrow> dyn a c"
  unfolding dyn_def using kept_trans by auto

lemma dyn_update: "kept (props d el) (f (props d el)) \<Longrightarrow> dyn d (update d el f)"
  by (simp add: dyn_def props_update)

lemma dyn_update_outside: "el \<notin> set (ids (tree d)) \<Longrightarrow> dyn d (update d el f)"
  by (auto simp: dyn_def props_update)

lemma dyn_createElement: "dyn d (snd (createElement d t))"
  using fresh_notin[of d] by (auto simp: dyn_def createElement_def)

lemma dyn_fresh: "dyn d d' \<Longrightarrow> fresh d' = fresh d"
  by (simp add: dyn_def fresh_def)

lemma dyn_addEventListener:
  "el \<notin> set (ids (tree d)) \<Longrightarrow> dyn d (addEventListener d el ty l)"
  unfolding addEventListener_def by (rule dyn_update_outside)

lemma tree_addEventListener [simp]: "tree (addEventListener d el ty l) = tree d"
  by (simp add: addEventListener_def)

lemma dyn_fold_addEventListener:
  "el \<notin> set (ids (tree d)) \<Longrightarrow> dyn d (fold (\<lambda>evt dd. addEventListener dd el evt l) evts d)"
proof (induction evts arbitrary: d)
  case Nil
  show ?case by (simp add: dyn_refl)
next
  case (Cons a evts)
  have "dyn d (addEventListener d el a l)"
    using Cons.prems by (rule dyn_addEventListener)
  moreover have "dyn (addEventListener d el a l)
      (fold (\<lambda>evt dd. addEventListener dd el evt l) evts (addEventListener d el a l))"
    using Cons.prems by (intro Cons.IH) simp
  ultimately show ?case
    using dyn_trans by simp
qed

lemma kept_simps [simp]:
  "kept e (e\<lparr>display := x\<rparr>)"
  "kept e (e\<lparr>pointerEvents := x\<rparr>)"
  "kept e (e\<lparr>btgClickBlocked := y\<rparr>)"
  "kept e (e\<lparr>btgDone := Some ''1''\<rparr>)"
  "kept e (e\<lparr>btgOwnerDone := Some ''1''\<rparr>)"
  by (simp_all add: kept_def truthy_def)

lemma tree_hidden [simp]: "tree (hidden d w p ow) = tree d"
  by (simp add: hidden_def Let_def split: option.splits)

lemma body_hidden [simp]: "body (hidden d w p ow) = body d"
  by (simp add: hidden_def Let_def split: option.splits)

lemma fresh_hidden [simp]: "fresh (hidden d w p ow) = fresh d"
  by (simp add: fresh_def)

lemma hideAndEmbed_eq:
  "hideAndEmbed this d el inPicker owner =
     (case insertTarget_of d el inPicker owner of
        None \<Rightarrow> Inl (TypeError, built d el inPicker owner)
      | Some t \<Rightarrow> Inr (appendChild (built d el inPicker owner) t (fresh d)))"
proof (cases inPicker)
  case True
  show ?thesis
  proof (cases owner)
    case None
    with True show ?thesis
      by (simp add: hideAndEmbed_def insertTarget_of_def built_def wrapper_of_def hidden_def
          container_element_def Let_def createElement_def addEventListener_def update_def
          fresh_def new_element_def split: option.split)
  next
    case (Some ow)
    with True show ?thesis
      by (simp add: hideAndEmbed_def insertTarget_of_def built_def wrapper_of_def hidden_def
          container_element_def Let_def createElement_def addEventListener_def update_def
          fresh_def new_element_def split: option.split)
  qed
next
  case False
  then show ?thesis
    by (simp add: hideAndEmbed_def insertTarget_of_def built_def wrapper_of_def hidden_def
        container_element_def Let_def createElement_def addEventListener_def update_def
        fresh_def new_element_def split: option.split)
qed

lemma dyn_hidden: "dyn d (hidden d w p ow)"
proof -
  have a: "dyn d (update d w (\<lambda>x. x\<lparr>display := ''none''\<rparr>))"
    by (rule dyn_update) simp
  show ?thesis
  proof (cases "p \<and> ow \<noteq> None")
    case False
    with a show ?thesis by (auto simp: hidden_def Let_def split: option.splits)
  next
    case True
    then obtain o' where o': "ow = Some o'" and p: p by auto
    let ?d1 = "update d w (\<lambda>x. x\<lparr>display := ''none''\<rparr>)"
    let ?d2 = "update ?d1 o' (\<lambda>x. x\<lparr>btgClickBlocked := Some ''1''\<rparr>)"
    have b: "dyn ?d1 ?d2" by (rule dyn_update) simp
    have c: "dyn ?d2 (update ?d2 o' (\<lambda>x. x\<lparr>pointerEvents := ''none''\<rparr>))"
      by (rule dyn_update) simp
    from dyn_trans[OF a dyn_trans[OF b c]] o' p show ?thesis
      by (simp add: hidden_def Let_def)
  qed
qed

lemma dyn_built: "dyn d (built d el p ow)"
proof -
  have "dyn (hidden d (wrapper_of d el p) p ow) (built d el p ow)"
    using fresh_notin[of d] by (auto simp: dyn_def built_def Let_def)
  with dyn_hidden show ?thesis by (rule dyn_trans)
qed

lemma props_built_fresh:
  "props (built d el p ow) (fresh d) = container_element (wrapper_of d el p) ow p (fresh d)"
  by (simp add: built_def Let_def)

lemma dyn_ext: "dyn d d' \<Longrightarrow> ext d d'"
  by (rule ext_I) (auto simp: dyn_def)

lemma hideAndEmbed_ext:
  assumes "hideAndEmbed this d el inPicker owner = Inr d'"
  shows "ext d d'"
proof -
  from assms obtain t where t: "insertTarget_of d el inPicker owner = Some t"
    and d': "d' = appendChild (built d el inPicker owner) t (fresh d)"
    by (auto simp: hideAndEmbed_eq split: option.splits)
  have dy: "dyn d (built d el inPicker owner)" by (rule dyn_built)
  show ?thesis
  proof (rule ext_I)
    show "body d' = body d" using d' dy by (simp add: appendChild_def dyn_def)
    have "tree d' = append_node t (fresh d) (tree d)"
      using d' dy by (simp add: appendChild_def dyn_def)
    moreover have "tagName (props d' (fresh d)) = ''div''"
      using d' by (simp add: appendChild_def props_built_fresh container_element_def new_element_def)
    ultimately show "tree d' = tree d \<or>
        (\<exists>t c. c \<notin> set (ids (tree d)) \<and> tree d' = append_node t c (tree d) \<and>
               tagName (props d' c) = ''div'')"
      using fresh_notin[of d] by blast
    show "kept (props d j) (props d' j)" if "j \<in> set (ids (tree d))" for j
      using that d' dy by (simp add: appendChild_def dyn_def)
  qed
qed

lemma static_fields:
  assumes "static e' = static e"
  shows "tagName e' = tagName e" "className e' = className e" "idAttr e' = idAttr e"
    "src e' = src e" "currentSrc e' = currentSrc e" "href e' = href e"
    "dataOriginalSrc e' = dataOriginalSrc e"
proof -
  have "tagName (static e') = tagName (static e)" "className (static e') = className (static e)"
    "idAttr (static e') = idAttr (static e)" "src (static e') = src (static e)"
    "currentSrc (static e') = currentSrc (static e)" "href (static e') = href (static e)"
    "dataOriginalSrc (static e') = dataOriginalSrc (static e)"
    using assms by simp_all
  then show "tagName e' = tagName e" "className e' = className e" "idAttr e' = idAttr e"
    "src e' = src e" "currentSrc e' = currentSrc e" "href e' = href e"
    "dataOriginalSrc e' = dataOriginalSrc e"
    by (simp_all add: static_def)
qed

lemma matches1_static:
  "static e' = static e \<Longrightarrow> (\<And>k. s \<noteq> HasData k) \<Longrightarrow> matches1 e' s = matches1 e s"
proof -
  assume st: "static e' = static e" and nd: "\<And>k. s \<noteq> HasData k"
  note f = static_fields[OF st]
  show ?thesis
  proof (cases s)
    case (HasData k)
    with nd show ?thesis by blast
  qed (simp_all add: f)
qed

lemma some_cong_set: "(\<And>x. x \<in> set xs \<Longrightarrow> p x = q x) \<Longrightarrow> some xs p = some xs q"
  by (induction xs) auto

lemma matches_kept:
  "kept (props d a) (props d' a) \<Longrightarrow> static_sel sel \<Longrightarrow> matches d' a sel = matches d a sel"
proof -
  assume k: "kept (props d a) (props d' a)" and ss: "static_sel sel"
  from k have st: "static (props d' a) = static (props d a)" by (simp add: kept_def)
  show ?thesis
    unfolding matches_def
  proof (rule some_cong_set)
    fix s assume "s \<in> set sel"
    with ss have "\<And>k. s \<noteq> HasData k" by (simp add: static_sel_def)
    with st show "matches1 (props d' a) s = matches1 (props d a) s" by (rule matches1_static)
  qed
qed

lemma closest_ext:
  assumes "ext d d'" "el \<in> set (ids (tree d))" "static_sel sel"
  shows "closest d' el sel = closest d el sel"
proof -
  have anc: "ancestors (tree d') el = ancestors (tree d) el"
    using assms unfolding ext_def by blast
  have "matches d' a sel = matches d a sel" if "a \<in> set (ancestors (tree d) el)" for a
  proof -
    from that ancestors_in_ids have "a \<in> set (ids (tree d))" by blast
    with assms(1) have "kept (props d a) (props d' a)" unfolding ext_def by blast
    then show ?thesis using assms(3) by (rule matches_kept)
  qed
  then show ?thesis
    unfolding closest_def anc by (intro find_cong) auto
qed

lemma closest_outside: "el \<notin> set (ids (tree d)) \<Longrightarrow> closest d el sel = None"
  using ancestors_Nil_iff[of "tree d" el] by (simp add: closest_def)

lemma parentElement_outside: "el \<notin> set (ids (tree d)) \<Longrightarrow> parentElement d el = None"
  using ancestors_Nil_iff[of "tree d" el] by (simp add: parentElement_def)

lemma closest_dyn:
  assumes "dyn d d'" "static_sel sel"
  shows "closest d' el sel = closest d el sel"
proof (cases "el \<in> set (ids (tree d))")
  case True
  show ?thesis by (rule closest_ext[OF dyn_ext[OF assms(1)] True assms(2)])
next
  case False
  moreover from False assms(1) have "el \<notin> set (ids (tree d'))" by (simp add: dyn_def)
  ultimately show ?thesis by (simp add: closest_outside)
qed

lemma parentElement_ext:
  assumes "ext d d'" "el \<in> set (ids (tree d))"
  shows "parentElement d' el = parentElement d el"
proof -
  have "ancestors (tree d') el = ancestors (tree d) el"
    using assms unfolding ext_def by blast
  then show ?thesis by (simp add: parentElement_def)
qed

lemma parentElement_dyn: "dyn d d' \<Longrightarrow> parentElement d' el = parentElement d el"
  by (simp add: dyn_def parentElement_def)

lemma static_sel_simps [simp]:
  "static_sel [ClassContains a]" "static_sel [ClassContains a, ClassContains b]"
  "static_sel [ClassContains a, ClassContains b, ClassContains c]"
  "static_sel [Tag t]" "static_sel [IdStartsWith i]"
  "static_sel [Tag t1, Tag t2, AnchorWithHref]"
  by (simp_all add: static_sel_def)

lemma isInGifPicker_ext:
  assumes "ext d d'" "el \<in> set (ids (tree d))"
  shows "isInGifPicker d' el = isInGifPicker d el"
  by (simp add: isInGifPicker_def closest_ext[OF assms])

lemma isInGifPicker_dyn:
  assumes "dyn d d'"
  shows "isInGifPicker d' el = isInGifPicker d el"
  by (simp add: isInGifPicker_def closest_dyn[OF assms])

lemma getOwnerNode_ext:
  assumes "ext d d'" "el \<in> set (ids (tree d))"
  shows "getOwnerNode d' el p = getOwnerNode d el p"
  by (simp add: getOwnerNode_def closest_ext[OF assms] parentElement_ext[OF assms])

lemma getOwnerNode_dyn:
  assumes "dyn d d'"
  shows "getOwnerNode d' el p = getOwnerNode d el p"
  by (simp add: getOwnerNode_def closest_dyn[OF assms] parentElement_dyn[OF assms])

lemma urls_of_ext:
  assumes "ext d d'" "el \<in> set (ids (tree d))"
  shows "urls_of d' el = urls_of d el"
proof -
  have k: "kept (props d el) (props d' el)" using assms unfolding ext_def by blast
  then have s: "static (props d' el) = static (props d el)" by (simp add: kept_def)
  have c: "closest d' el [Tag ''a''] = closest d el [Tag ''a'']"
    by (simp add: closest_ext[OF assms])
  have h: "href (props d' a) = href (props d a)" if "closest d el [Tag ''a''] = Some a" for a
  proof -
    from closest_in_ids[OF that] have "a \<in> set (ids (tree d))" by simp
    with assms(1) have "kept (props d a) (props d' a)" unfolding ext_def by blast
    then have "static (props d' a) = static (props d a)" by (simp add: kept_def)
    then show ?thesis by (rule static_fields)
  qed
  have l: "(case closest d' el [Tag ''a''] of None \<Rightarrow> None | Some a \<Rightarrow> href (props d' a)) =
           (case closest d el [Tag ''a''] of None \<Rightarrow> None | Some a \<Rightarrow> href (props d a))"
    unfolding c using h by (cases "closest d el [Tag ''a'']") simp_all
  show ?thesis
    unfolding urls_of_def by (simp only: l static_fields[OF s])
qed

lemma settled_ext:
  assumes "ext d d'" "el \<in> set (ids (tree d))" "settled this d el"
  shows "settled this d' el"
proof -
  have "kept (props d el) (props d' el)" using assms unfolding ext_def by blast
  then have "truthy (btgDone (props d el)) \<Longrightarrow> truthy (btgDone (props d' el))"
    by (simp add: kept_def)
  with assms(3) show ?thesis
    unfolding settled_def urls_of_ext[OF assms(1,2)] isInGifPicker_ext[OF assms(1,2)] by blast
qed

lemma processElement_settled: "settled this d el \<Longrightarrow> processElement this d el = Inr d"
  unfolding settled_def by (elim disjE) (simp_all add: processElement_def Let_def)

lemma nullish_Some: "nullish a b = Some x \<Longrightarrow> a = Some x \<or> b = Some x"
  by (cases a) (simp_all add: nullish_def)

lemma getOwnerNode_in_ids:
  assumes "getOwnerNode d el p = Some ow"
  shows "ow \<in> set (ids (tree d))" "el \<in> set (ids (tree d))"
proof -
  consider sel where "closest d el sel = Some ow" | "parentElement d el = Some ow"
    using assms unfolding getOwnerNode_def
    by (auto split: if_splits dest!: nullish_Some)
  then have "ow \<in> set (ids (tree d)) \<and> el \<in> set (ids (tree d))"
    using closest_in_ids parentElement_in_ids by cases blast+
  then show "ow \<in> set (ids (tree d))" "el \<in> set (ids (tree d))" by simp_all
qed

lemma getOwnerNode_outside: "el \<notin> set (ids (tree d)) \<Longrightarrow> getOwnerNode d el p = None"
  using getOwnerNode_in_ids(2)[of d el p] by (cases "getOwnerNode d el p") auto

lemma dyn_marked: "dyn d (marked d el)"
  unfolding marked_def by (rule dyn_update) simp

lemma dyn_owned: "dyn d (owned d owner)"
  unfolding owned_def by (cases owner) (auto intro: dyn_refl dyn_update)

lemma wrapper_of_dyn:
  assumes "dyn d d'"
  shows "wrapper_of d' el p = wrapper_of d el p"
  by (simp add: wrapper_of_def closest_dyn[OF assms])

lemma processElement_unsettled:
  assumes "\<not> settled this d el"
  shows "processElement this d el =
     (let p = isInGifPicker d el; owner = getOwnerNode d el p in
      if (case owner of None \<Rightarrow> False | Some ow \<Rightarrow> truthy (btgOwnerDone (props (marked d el) ow)))
      then Inr (update (marked d el) (wrapper_of d el p) (\<lambda>x. x\<lparr>display := ''none''\<rparr>))
      else hideAndEmbed this (owned (marked d el) owner) el p owner)"
proof -
  note m = dyn_marked[of d el, unfolded marked_def]
  note g = getOwnerNode_dyn[OF m]
  have w2: "(case closest (update d el (\<lambda>x. x\<lparr>btgDone := Some ''1''\<rparr>)) el
                 [ClassContains ''imageWrapper'', ClassContains ''embedMedia''] of
               None \<Rightarrow> el | Some w' \<Rightarrow> w') = wrapper_of d el False"
    using wrapper_of_dyn[OF m, of el False] by (simp add: wrapper_of_def)
  from assms have a: "\<not> truthy (btgDone (props d el))" "some (urls_of d el) (isGifUrl this)"
    "some (urls_of d el) (isBlocked this)" "\<not> (isInGifPicker d el \<and> \<not> blockInPicker this)"
    by (auto simp: settled_def)
  show ?thesis
  proof (cases "isInGifPicker d el")
    case True
    with a have b: "blockInPicker this" by simp
    from a(1-3) True b show ?thesis
      unfolding processElement_def Let_def marked_def owned_def
      by (simp add: g wrapper_of_def)
  next
    case False
    from a(1-3) False show ?thesis
      unfolding processElement_def Let_def marked_def owned_def
      by (simp add: g w2)
  qed
qed

lemma processElement_ext:
  assumes "processElement this d el = Inr d'"
  shows "ext d d'"
proof (cases "settled this d el")
  case True
  with assms show ?thesis by (simp add: processElement_settled ext_refl)
next
  case False
  let ?p = "isInGifPicker d el"
  let ?ow = "getOwnerNode d el ?p"
  let ?m = "marked d el"
  note pe = assms[unfolded processElement_unsettled[OF False] Let_def]
  show ?thesis
  proof (cases "case ?ow of None \<Rightarrow> False | Some ow \<Rightarrow> truthy (btgOwnerDone (props ?m ow))")
    case True
    with pe have "d' = update ?m (wrapper_of d el ?p) (\<lambda>x. x\<lparr>display := ''none''\<rparr>)" by simp
    moreover have "dyn ?m (update ?m (wrapper_of d el ?p) (\<lambda>x. x\<lparr>display := ''none''\<rparr>))"
      by (rule dyn_update) simp
    ultimately have "dyn d d'" using dyn_trans[OF dyn_marked] by blast
    then show ?thesis by (rule dyn_ext)
  next
    case nd: False
    with pe have "hideAndEmbed this (owned ?m ?ow) el ?p ?ow = Inr d'" by simp
    then have "ext (owned ?m ?ow) d'" by (rule hideAndEmbed_ext)
    moreover have "dyn d (owned ?m ?ow)" using dyn_trans[OF dyn_marked dyn_owned] .
    ultimately show ?thesis using ext_trans[OF dyn_ext] by blast
  qed
qed

lemma kept_done: "kept e e' \<Longrightarrow> truthy (btgDone e) \<Longrightarrow> truthy (btgDone e')"
  by (simp add: kept_def)

lemma processElement_settles:
  assumes "processElement this d el = Inr d'" "el \<in> set (ids (tree d))"
  shows "settled this d' el"
proof (cases "settled this d el")
  case True
  with assms show ?thesis by (simp add: processElement_settled)
next
  case False
  let ?p = "isInGifPicker d el"
  let ?ow = "getOwnerNode d el ?p"
  let ?m = "marked d el"
  note pe = assms(1)[unfolded processElement_unsettled[OF False] Let_def]
  have el: "el \<in> set (ids (tree ?m))" using assms(2) by (simp add: marked_def)
  have tm: "truthy (btgDone (props ?m el))" by (simp add: marked_def props_update truthy_def)
  have "ext ?m d'"
  proof (cases "case ?ow of None \<Rightarrow> False | Some ow \<Rightarrow> truthy (btgOwnerDone (props ?m ow))")
    case True
    with pe have "d' = update ?m (wrapper_of d el ?p) (\<lambda>x. x\<lparr>display := ''none''\<rparr>)" by simp
    moreover have "dyn ?m (update ?m (wrapper_of d el ?p) (\<lambda>x. x\<lparr>display := ''none''\<rparr>))"
      by (rule dyn_update) simp
    ultimately show ?thesis using dyn_ext by blast
  next
    case nd: False
    with pe have "hideAndEmbed this (owned ?m ?ow) el ?p ?ow = Inr d'" by simp
    then have "ext (owned ?m ?ow) d'" by (rule hideAndEmbed_ext)
    then show ?thesis using ext_trans[OF dyn_ext[OF dyn_owned]] by blast
  qed
  with el have "kept (props ?m el) (props d' el)" unfolding ext_def by blast
  with tm have "truthy (btgDone (props d' el))" by (rule kept_done[rotated])
  then show ?thesis by (simp add: settled_def)
qed

lemma insertTarget_of_outside:
  assumes "el \<notin> set (ids (tree d))"
  shows "insertTarget_of d el p None = None"
proof -
  have w: "wrapper_of d el q = el" for q
    using assms by (simp add: wrapper_of_def closest_outside)
  from assms show ?thesis
    by (simp add: insertTarget_of_def nullish_def w closest_outside parentElement_outside)
qed

lemma processElement_outside:
  assumes "el \<notin> set (ids (tree d))" "processElement this d el = Inr d'"
  shows "d' = d"
proof (cases "settled this d el")
  case True
  with assms show ?thesis by (simp add: processElement_settled)
next
  case False
  have ow: "getOwnerNode d el p = None" for p
    using assms(1) by (rule getOwnerNode_outside)
  have "el \<notin> set (ids (tree (owned (marked d el) None)))"
    using assms(1) by (simp add: owned_def marked_def)
  then have "insertTarget_of (owned (marked d el) None) el p None = None" for p
    by (rule insertTarget_of_outside)
  with assms(2) show ?thesis
    unfolding processElement_unsettled[OF False] Let_def ow
    by (simp add: hideAndEmbed_eq)
qed

lemma processContainer_candidates:
  "processContainer this d (HTMLElement c) = forEach (candidates d c) (processElement this) d"
  by (simp add: processContainer_def candidates_def Let_def)

lemma set_fold_set_add: "set (fold (\<lambda>el seen. set_add seen el) xs s) = set s \<union> set xs"
  by (induction xs arbitrary: s) (auto simp: set_add_def)

lemma set_candidates:
  "set (candidates d c) =
     (if matches d c [Tag ''img'', Tag ''video'', AnchorWithHref] then {c} else {}) \<union>
     set (querySelectorAll d c [Tag ''img'', Tag ''video'', AnchorWithHref])"
  unfolding candidates_def set_fold_set_add by (simp add: set_add_def)

lemma forEach_settled:
  "(\<And>x. x \<in> set xs \<Longrightarrow> settled this d x) \<Longrightarrow> forEach xs (processElement this) d = Inr d"
  by (induction xs) (simp_all add: processElement_settled)

lemma forEach_ext_settles:
  assumes "forEach xs (processElement this) d = Inr d'" "set xs \<subseteq> set (ids (tree d))"
  shows "ext d d' \<and> (\<forall>x \<in> set xs. settled this d' x)"
  using assms
proof (induction xs arbitrary: d)
  case Nil
  then show ?case by (simp add: ext_refl)
next
  case (Cons x xs)
  from Cons.prems(1) obtain d1 where d1: "processElement this d x = Inr d1"
    and rest: "forEach xs (processElement this) d1 = Inr d'"
    by (auto split: sum.splits)
  have x: "x \<in> set (ids (tree d))" using Cons.prems(2) by simp
  have e1: "ext d d1" using d1 by (rule processElement_ext)
  then have sub: "set (ids (tree d)) \<subseteq> set (ids (tree d1))" by (simp add: ext_def)
  with Cons.prems(2) have "set xs \<subseteq> set (ids (tree d1))" by auto
  with Cons.IH[OF rest] have e2: "ext d1 d'" and s2: "\<forall>y \<in> set xs. settled this d' y" by blast+
  have "settled this d1 x" using d1 x by (rule processElement_settles)
  moreover from x sub have "x \<in> set (ids (tree d1))" by blast
  ultimately have "settled this d' x" by (rule settled_ext[OF e2 _ _, rotated])
  with s2 ext_trans[OF e1 e2] show ?case by simp
qed

lemma forEach_outside:
  assumes "el \<notin> set (ids (tree d))" "forEach xs (processElement this) d = Inr d'"
    "set xs \<subseteq> {el}"
  shows "d' = d"
  using assms(2,3)
proof (induction xs)
  case Nil
  then show ?case by simp
next
  case (Cons x xs)
  from Cons.prems(2) have x: "x = el" by simp
  from Cons.prems(1) obtain d1 where d1: "processElement this d x = Inr d1"
    and rest: "forEach xs (processElement this) d1 = Inr d'"
    by (auto split: sum.splits)
  from d1 x assms(1) have "d1 = d" using processElement_outside by blast
  with rest Cons.IH Cons.prems(2) show ?case by simp
qed

lemma subtree_None_iff: "subtree t r = None \<longleftrightarrow> r \<notin> set (ids t)"
proof (induction t)
  case (Nd i ts)
  have "first_some (map (\<lambda>t. subtree t r) ts) = None \<longleftrightarrow> (\<forall>t \<in> set ts. subtree t r = None)"
    by (induction ts) (auto split: option.splits)
  with Nd show ?case by auto
qed

lemma descendants_outside: "r \<notin> set (ids t) \<Longrightarrow> descendants t r = []"
  using subtree_None_iff[of t r] by (simp add: descendants_def)

lemma not_candidate_div:
  "tagName (props d x) = ''div'' \<Longrightarrow> \<not> matches d x [Tag ''img'', Tag ''video'', AnchorWithHref]"
  by (simp add: matches_def)

lemma scan_twice:
  assumes "processContainer this d container = Inr d'"
  shows "processContainer this d' container = Inr d'"
proof (cases container)
  case OtherNode
  with assms show ?thesis by (simp add: processContainer_def)
next
  case (HTMLElement c)
  let ?sel = "[Tag ''img'', Tag ''video'', AnchorWithHref]"
  from assms HTMLElement have run: "forEach (candidates d c) (processElement this) d = Inr d'"
    by (simp add: processContainer_candidates)
  show ?thesis
  proof (cases "c \<in> set (ids (tree d))")
    case False
    then have sub: "set (candidates d c) \<subseteq> {c}"
      by (auto simp: set_candidates querySelectorAll_def descendants_outside)
    have "d' = d"
      by (rule forEach_outside[OF False run sub])
    with assms show ?thesis by simp
  next
    case True
    have "set (candidates d c) \<subseteq> set (ids (tree d))"
      using True descendants_in_ids[of "tree d" c]
      by (auto simp: set_candidates querySelectorAll_def)
    from forEach_ext_settles[OF run this]
    have e: "ext d d'" and s: "\<And>x. x \<in> set (candidates d c) \<Longrightarrow> settled this d' x" by blast+
    have k: "kept (props d x) (props d' x)" if "x \<in> set (ids (tree d))" for x
      using e that unfolding ext_def by blast
    have "settled this d' x" if x: "x \<in> set (candidates d' c)" for x
    proof (cases "x \<in> set (ids (tree d))")
      case old: True
      have m: "matches d' x ?sel = matches d x ?sel"
        using k[OF old] by (rule matches_kept) simp
      from x consider "x = c" "matches d' c ?sel"
        | "x \<in> set (descendants (tree d') c)" "matches d' x ?sel"
        by (auto simp: set_candidates querySelectorAll_def split: if_splits)
      then have "x \<in> set (candidates d c)"
      proof cases
        case 1
        with m show ?thesis by (simp add: set_candidates)
      next
        case 2
        with e True old have "x \<in> set (descendants (tree d) c)" unfolding ext_def by blast
        with 2 m show ?thesis by (simp add: set_candidates querySelectorAll_def)
      qed
      then show ?thesis by (rule s)
    next
      case new: False
      with True have "x \<noteq> c" by auto
      with x have xd: "x \<in> set (descendants (tree d') c)" and xm: "matches d' x ?sel"
        by (auto simp: set_candidates querySelectorAll_def split: if_splits)
      from xd descendants_in_ids have "x \<in> set (ids (tree d'))" by blast
      with new e have "tagName (props d' x) = ''div''" unfolding ext_def by blast
      with xm not_candidate_div show ?thesis by blast
    qed
    then have "forEach (candidates d' c) (processElement this) d' = Inr d'"
      by (rule forEach_settled)
    with HTMLElement show ?thesis by (simp add: processContainer_candidates)
  qed
qed

lemma hideAndEmbed_dom:
  "dom_of (hideAndEmbed this d el p ow) =
     (case insertTarget_of d el p ow of
        None \<Rightarrow> built d el p ow
      | Some t \<Rightarrow> appendChild (built d el p ow) t (fresh d))"
  by (simp add: hideAndEmbed_eq split: option.split)

lemma props_hideAndEmbed: "props (dom_of (hideAndEmbed this d el p ow)) = props (built d el p ow)"
  by (simp add: hideAndEmbed_dom appendChild_def split: option.split)

lemma isInGifPicker_in_ids: "isInGifPicker d el \<Longrightarrow> el \<in> set (ids (tree d))"
  unfolding isInGifPicker_def using closest_in_ids by (metis not_Some_eq)

lemma processElement_marks:
  assumes "\<not> settled this d el" "el \<in> set (ids (tree d))"
  shows "truthy (btgDone (props (dom_of (processElement this d el)) el))"
proof -
  let ?p = "isInGifPicker d el"
  let ?ow = "getOwnerNode d el ?p"
  let ?m = "marked d el"
  have el: "el \<in> set (ids (tree ?m))" using assms(2) by (simp add: marked_def)
  have tm: "truthy (btgDone (props ?m el))" by (simp add: marked_def props_update truthy_def)
  have keep: "truthy (btgDone (props x el))" if "dyn ?m x" for x
  proof -
    from that el have "kept (props ?m el) (props x el)" by (simp add: dyn_def)
    then show ?thesis using tm by (rule kept_done)
  qed
  show ?thesis
  proof (cases "case ?ow of None \<Rightarrow> False | Some ow \<Rightarrow> truthy (btgOwnerDone (props ?m ow))")
    case True
    have "dyn ?m (update ?m (wrapper_of d el ?p) (\<lambda>x. x\<lparr>display := ''none''\<rparr>))"
      by (rule dyn_update) simp
    from keep[OF this] True show ?thesis
      by (simp add: processElement_unsettled[OF assms(1)] Let_def)
  next
    case False
    have "dyn ?m (built (owned ?m ?ow) el ?p ?ow)"
      using dyn_trans[OF dyn_owned dyn_built] .
    from keep[OF this] False show ?thesis
      by (simp add: processElement_unsettled[OF assms(1)] Let_def props_hideAndEmbed)
  qed
qed

text \<open>
  C5. Inside a picker surface with \<^verbatim>\<open>blockInPicker\<close> off, \<^verbatim>\<open>processElement\<close> returns
  with the document exactly as it was: no marker is set, nothing is hidden, no
  placeholder is built, no pointer suppression is applied. The candidate is still
  unmarked, so it is evaluated again later: once the setting is on, a candidate there
  whose URLs are GIF-like and blocked is taken up and marked processed.
\<close>

theorem picker_skipped:
  assumes "isInGifPicker d el" "\<not> blockInPicker this"
  shows "processElement this d el = Inr d \<and>
         (\<not> truthy (btgDone (props d el)) \<and> some (urls_of d el) (isGifUrl this) \<and>
          some (urls_of d el) (isBlocked this) \<longrightarrow>
            truthy (btgDone (props (dom_of (processElement (this\<lparr>blockInPicker := True\<rparr>) d el)) el)))"
proof
  from assms have "settled this d el" by (simp add: settled_def)
  then show "processElement this d el = Inr d" by (rule processElement_settled)
  show "\<not> truthy (btgDone (props d el)) \<and> some (urls_of d el) (isGifUrl this) \<and>
          some (urls_of d el) (isBlocked this) \<longrightarrow>
            truthy (btgDone (props (dom_of (processElement (this\<lparr>blockInPicker := True\<rparr>) d el)) el))"
  proof
    assume a: "\<not> truthy (btgDone (props d el)) \<and> some (urls_of d el) (isGifUrl this) \<and>
          some (urls_of d el) (isBlocked this)"
    have g: "isGifUrl (this\<lparr>blockInPicker := True\<rparr>) = isGifUrl this"
      by (rule ext) (simp add: isGifUrl_def)
    have b: "isBlocked (this\<lparr>blockInPicker := True\<rparr>) = isBlocked this"
      by (rule ext) (simp add: isBlocked_def split: option.split)
    from a have "\<not> settled (this\<lparr>blockInPicker := True\<rparr>) d el"
      by (simp add: settled_def g b)
    then show "truthy (btgDone (props (dom_of (processElement (this\<lparr>blockInPicker := True\<rparr>) d el)) el))"
      using isInGifPicker_in_ids[OF assms(1)] by (rule processElement_marks)
  qed
qed

theorem picker_skipped_witness:
  "isInGifPicker picker_doc 5 \<and> \<not> blockInPicker (defaults\<lparr>blockInPicker := False\<rparr>) \<and>
   processElement (defaults\<lparr>blockInPicker := False\<rparr>) picker_doc 5 = Inr picker_doc \<and>
   truthy (btgDone (props (dom_of (processElement
       (defaults\<lparr>blockInPicker := False, blockInPicker := True\<rparr>) picker_doc 5)) 5))"
proof -
  have h1: "isInGifPicker picker_doc 5" by code_simp
  have h2: "\<not> blockInPicker (defaults\<lparr>blockInPicker := False\<rparr>)" by simp
  have h3: "\<not> truthy (btgDone (props picker_doc 5)) \<and>
      some (urls_of picker_doc 5) (isGifUrl (defaults\<lparr>blockInPicker := False\<rparr>)) \<and>
      some (urls_of picker_doc 5) (isBlocked (defaults\<lparr>blockInPicker := False\<rparr>))"
    by code_simp
  from picker_skipped[OF h1 h2] h1 h2 h3 show ?thesis by simp
qed

text \<open>
  C3. Two scans of the same node are not one scan on the parentless gallery
  \<^verbatim>\<open>div.imageWrapper_abc > img, img\<close>. The first scan marks the first image and the
  wrapper, hides the wrapper and throws at \<^verbatim>\<open>insertTarget.appendChild(container)\<close>
  before it reaches the second image, which is left unmarked. The second scan of the
  same node, nothing else having touched the document, returns and marks the second
  image.
\<close>

theorem second_scan_marks_after_throw:
  "isl (processContainer defaults detached_gallery (HTMLElement 0)) \<and>
   fst (projl (processContainer defaults detached_gallery (HTMLElement 0))) = TypeError \<and>
   btgDone (props (dom_of (processContainer defaults detached_gallery (HTMLElement 0))) 1) = Some ''1'' \<and>
   btgOwnerDone (props (dom_of (processContainer defaults detached_gallery (HTMLElement 0))) 0) =
     Some ''1'' \<and>
   display (props (dom_of (processContainer defaults detached_gallery (HTMLElement 0))) 0) = ''none'' \<and>
   btgDone (props (dom_of (processContainer defaults detached_gallery (HTMLElement 0))) 2) = None \<and>
   \<not> isl (processContainer defaults
           (dom_of (processContainer defaults detached_gallery (HTMLElement 0))) (HTMLElement 0)) \<and>
   btgDone (props (dom_of (processContainer defaults
           (dom_of (processContainer defaults detached_gallery (HTMLElement 0))) (HTMLElement 0))) 2) =
     Some ''1''"
  by code_simp

text \<open>
  With a parent for the wrapper the first scan returns, and the second scan changes
  nothing: the message \<^verbatim>\<open>message_doc\<close> scanned twice from its body.
\<close>

lemma scan_twice_message_doc:
  "processContainer defaults message_doc (HTMLElement 1) =
     Inr (dom_of (processContainer defaults message_doc (HTMLElement 1))) \<and>
   processContainer defaults (dom_of (processContainer defaults message_doc (HTMLElement 1)))
     (HTMLElement 1) =
     Inr (dom_of (processContainer defaults message_doc (HTMLElement 1))) \<and>
   tree (dom_of (processContainer defaults message_doc (HTMLElement 1))) =
     Nd 0 [Nd 1 [Nd 2 [Nd 3 [Nd 4 []], Nd 5 []]]]"
proof -
  have "\<not> isl (processContainer defaults message_doc (HTMLElement 1))" by code_simp
  then have r: "processContainer defaults message_doc (HTMLElement 1) =
     Inr (dom_of (processContainer defaults message_doc (HTMLElement 1)))"
    by (cases "processContainer defaults message_doc (HTMLElement 1)") auto
  have t: "tree (dom_of (processContainer defaults message_doc (HTMLElement 1))) =
     Nd 0 [Nd 1 [Nd 2 [Nd 3 [Nd 4 []], Nd 5 []]]]"
    by code_simp
  from scan_twice[OF r] r t show ?thesis by simp
qed

lemma find_nearest: "List.find P xs = nearest P xs"
  by (induction xs) auto

lemma closest_nearest:
  "closest d el [ClassContains s] =
     nearest (\<lambda>a. has_substring (className (props d a)) s) (ancestors (tree d) el)"
  "closest d el [Tag t] = nearest (\<lambda>a. tagName (props d a) = t) (ancestors (tree d) el)"
  "closest d el [IdStartsWith s] =
     nearest (\<lambda>a. prefix s (idAttr (props d a))) (ancestors (tree d) el)"
  by (simp_all add: closest_def matches_def find_nearest includes_has_substring startsWith_prefix)

lemma parentElement_tl:
  "parentElement d el = (case tl (ancestors (tree d) el) of [] \<Rightarrow> None | p # _ \<Rightarrow> Some p)"
  by (simp add: parentElement_def split: list.splits)

lemma nullish_first_some: "nullish a b = first_some [a, b]"
  by (cases a; cases b) (simp_all add: nullish_def)

lemma first_some_Cons: "first_some (a # xs) = nullish a (first_some xs)"
  by (cases a) (simp_all add: nullish_def)

lemma nullish_None: "nullish a None = a"
  by (cases a) (simp_all add: nullish_def)

lemma getOwnerNode_owner_unit: "getOwnerNode d el inPicker = owner_unit d el inPicker"
  unfolding getOwnerNode_def owner_unit_def Let_def closest_nearest parentElement_tl
  by (simp only: first_some_Cons first_some.simps(1) nullish_None)

lemma parentElement_update: "parentElement (update d x f) el = parentElement d el"
  by (simp add: parentElement_def)

lemma closest_update_attributes:
  assumes f: "\<And>e. tagName (f e) = tagName e \<and> className (f e) = className e \<and>
                 idAttr (f e) = idAttr e"
  shows "closest (update d x f) el [ClassContains s] = closest d el [ClassContains s]"
    "closest (update d x f) el [Tag t] = closest d el [Tag t]"
    "closest (update d x f) el [IdStartsWith s] = closest d el [IdStartsWith s]"
proof -
  have a: "className (props (update d x f) a) = className (props d a)"
    "tagName (props (update d x f) a) = tagName (props d a)"
    "idAttr (props (update d x f) a) = idAttr (props d a)" for a
    by (simp_all add: props_update f)
  show "closest (update d x f) el [ClassContains s] = closest d el [ClassContains s]"
    "closest (update d x f) el [Tag t] = closest d el [Tag t]"
    "closest (update d x f) el [IdStartsWith s] = closest d el [IdStartsWith s]"
    unfolding closest_nearest tree_update by (simp_all only: a)
qed

text \<open>
  C6, as amended. \<^verbatim>\<open>getOwnerNode\<close> searches the inclusive ancestors, the element itself
  first: in the picker it returns the nearest of them whose class contains
  \<^verbatim>\<open>result__\<close>, else the immediate parent; otherwise the first that exists of the
  nearest with \<^verbatim>\<open>imageWrapper\<close> in its class, the nearest with
  \<^verbatim>\<open>embedWrapper\<close> in its class, the nearest \<^verbatim>\<open>article\<close>, the nearest whose id starts
  with \<^verbatim>\<open>message-accessories\<close>, and the immediate parent (absent for an element without
  parent). The result is a function of the element and the document, and a write that
  changes no tag name, class or id of an element (every marker or style write of the
  plugin) leaves it the same.
\<close>

theorem getOwnerNode_spec:
  "getOwnerNode d el inPicker = owner_unit d el inPicker \<and>
   (\<forall>x f. (\<forall>e. tagName (f e) = tagName e \<and> className (f e) = className e \<and>
                idAttr (f e) = idAttr e) \<longrightarrow>
          getOwnerNode (update d x f) el inPicker = getOwnerNode d el inPicker)"
proof (intro conjI allI impI)
  show "getOwnerNode d el inPicker = owner_unit d el inPicker"
    by (rule getOwnerNode_owner_unit)
next
  fix x and f :: "element \<Rightarrow> element"
  assume "\<forall>e. tagName (f e) = tagName e \<and> className (f e) = className e \<and> idAttr (f e) = idAttr e"
  then have f: "\<And>e. tagName (f e) = tagName e \<and> className (f e) = className e \<and>
                 idAttr (f e) = idAttr e" by blast
  show "getOwnerNode (update d x f) el inPicker = getOwnerNode d el inPicker"
    unfolding getOwnerNode_def by (simp only: closest_update_attributes[OF f] parentElement_update)
qed

theorem getOwnerNode_spec_witness:
  "getOwnerNode message_doc 4 False = Some 3 \<and>
   owner_unit message_doc 4 False = Some 3 \<and>
   getOwnerNode (update message_doc 3 (\<lambda>e. e\<lparr>display := ''none''\<rparr>)) 4 False = Some 3 \<and>
   getOwnerNode picker_doc 5 True = Some 4"
proof -
  have a: "getOwnerNode message_doc 4 False = Some 3" by code_simp
  have b: "getOwnerNode picker_doc 5 True = Some 4" by code_simp
  have c: "\<forall>e. tagName (e\<lparr>display := ''none''\<rparr>) = tagName e \<and>
               className (e\<lparr>display := ''none''\<rparr>) = className e \<and>
               idAttr (e\<lparr>display := ''none''\<rparr>) = idAttr e" by simp
  from getOwnerNode_spec[of message_doc 4 False] a b c show ?thesis by auto
qed

theorem getOwnerNode_self_match:
  "getOwnerNode wrapper_link_doc 3 False = Some 3 \<and>
   owner_as_claimed wrapper_link_doc 3 False = Some 2"
  by code_simp

lemma handle_Reveal_stops:
  "propagationStopped (fst (handle (Reveal w ow p c) (e, d)))"
  by (simp add: Let_def)

lemma click_listeners_container:
  "map snd (filter (\<lambda>tl. fst tl = ''click'') (listeners (container_element w ow p c))) =
     [Reveal w ow p c]"
  by (simp add: container_element_def new_element_def)

lemma propagate_stopped_here:
  assumes "map snd (filter (\<lambda>tl. fst tl = etype e) (listeners (props d n))) = [Reveal w ow p c]"
  shows "fst (propagate (n # path) (e, d)) = [n]"
proof -
  obtain e' d' where h: "handle (Reveal w ow p c) (e, d) = (e', d')" by fastforce
  with handle_Reveal_stops[of w ow p c e d] have "propagationStopped e'" by simp
  with h assms show ?thesis by (simp add: Let_def)
qed

text \<open>
  Version 1.1.0: a click on the reveal control of a placeholder that a scan has just
  inserted is delivered to the control and to no other element.
\<close>

lemma reveal_stops_propagation:
  assumes "processElement this d el = Inr d'" "c \<in> set (ids (tree d'))" "c \<notin> set (ids (tree d))"
  shows "fst (dispatchEvent d' c ''click'') = [c]"
proof (cases "settled this d el")
  case True
  with assms show ?thesis by (simp add: processElement_settled)
next
  case False
  let ?p = "isInGifPicker d el"
  let ?ow = "getOwnerNode d el ?p"
  let ?m = "marked d el"
  let ?D = "owned ?m ?ow"
  note pe = assms(1)[unfolded processElement_unsettled[OF False] Let_def]
  have tD: "tree ?D = tree d" using dyn_trans[OF dyn_marked dyn_owned] by (simp add: dyn_def)
  show ?thesis
  proof (cases "case ?ow of None \<Rightarrow> False | Some ow \<Rightarrow> truthy (btgOwnerDone (props ?m ow))")
    case True
    with pe have "tree d' = tree d" by (auto simp: marked_def)
    with assms show ?thesis by simp
  next
    case nd: False
    with pe have "hideAndEmbed this ?D el ?p ?ow = Inr d'" by simp
    then obtain t where d': "d' = appendChild (built ?D el ?p ?ow) t (fresh ?D)"
      by (auto simp: hideAndEmbed_eq split: option.splits)
    have tb: "tree (built ?D el ?p ?ow) = tree d"
      using dyn_built[of ?D el ?p ?ow] tD by (simp add: dyn_def)
    from d' tb have t': "tree d' = append_node t (fresh ?D) (tree d)"
      by (simp add: appendChild_def)
    with assms(2,3) have c: "c = fresh ?D"
      by (auto simp: ids_append_node_set split: if_splits)
    have pc: "props d' c = container_element (wrapper_of ?D el ?p) ?ow ?p c"
      using d' c by (simp add: appendChild_def props_built_fresh)
    from assms(2) have "ancestors (tree d') c \<noteq> []" by (simp add: ancestors_Nil_iff)
    then obtain up where up: "ancestors (tree d') c = c # up"
      using ancestors_hd[of "tree d'" c] by (cases "ancestors (tree d') c") auto
    show ?thesis
      unfolding dispatchEvent_def up
      by (rule propagate_stopped_here) (simp add: pc click_listeners_container)
  qed
qed

text \<open>
  C8. In version 1.0.0 of the plugin the click listener of the reveal control does not
  stop the propagation: for the placeholder that \<^verbatim>\<open>processElement\<close> of that version
  builds for the image of the example message, a click on the control is delivered to
  the control (5) and then to the accessories container (2), the body (1) and the root
  (0), where the host's click listeners run.
\<close>

theorem reveal_1_0_0_bubbles:
  "fst (dispatchEvent (dom_of (processElement_1_0_0 defaults message_doc 4)) 5 ''click'') =
     [5, 2, 1, 0]"
  by code_simp

text \<open>
  With a parent for the wrapper, \<^verbatim>\<open>hideAndEmbed\<close> returns, whatever ancestors are
  missing.
\<close>

lemma hideAndEmbed_returns:
  assumes "parentElement d (wrapper_of d el p) = Some q"
  shows "\<exists>d'. hideAndEmbed this d el p ow = Inr d'"
proof -
  have "insertTarget_of d el p ow \<noteq> None"
    using assms
    by (cases p; cases ow;
        cases "closest d (wrapper_of d el False) [IdStartsWith ''message-accessories'']")
       (simp_all add: insertTarget_of_def nullish_def wrapper_of_def)
  then show ?thesis by (auto simp: hideAndEmbed_eq)
qed

text \<open>
  C9. A blocked image without parent makes the scan throw: \<^verbatim>\<open>owner\<close> is \<^verbatim>\<open>null\<close>, the
  insertion target is \<^verbatim>\<open>null\<close>, and \<^verbatim>\<open>insertTarget.appendChild(container)\<close> raises a
  \<^verbatim>\<open>TypeError\<close>, after the image has been marked processed and hidden.
\<close>

theorem detached_img_throws:
  "isl (processContainer defaults detached_img (HTMLElement 0)) \<and>
   fst (projl (processContainer defaults detached_img (HTMLElement 0))) = TypeError \<and>
   btgDone (props (dom_of (processContainer defaults detached_img (HTMLElement 0))) 0) = Some ''1'' \<and>
   display (props (dom_of (processContainer defaults detached_img (HTMLElement 0))) 0) = ''none''"
  by code_simp

text \<open>
  C2. \<^verbatim>\<open>stop()\<close> after \<^verbatim>\<open>start()\<close> on the document
  \<^verbatim>\<open>html > body > div.imageWrapper_abc > div.gifFavorite_abc > img\<close>: \<^verbatim>\<open>start()\<close> hides
  the image wrapper (2), the nearest element matching \<^verbatim>\<open>imageWrapper\<close> or
  \<^verbatim>\<open>embedMedia\<close>; \<^verbatim>\<open>stop()\<close> restores the image (4) and the nearest element matching
  \<^verbatim>\<open>imageWrapper\<close>, \<^verbatim>\<open>gifFavorite\<close> or \<^verbatim>\<open>embedMedia\<close>, which is element 3. The wrapper
  is still in the document and still hidden.
\<close>

theorem stop_leaves_wrapper_hidden:
  "display (props (dom_of (snd (start defaults favorite_doc))) 2) = ''none'' \<and>
   display (props (snd (stop defaults (dom_of (snd (start defaults favorite_doc))))) 2) = ''none'' \<and>
   2 \<in> set (ids (tree (snd (stop defaults (dom_of (snd (start defaults favorite_doc)))))))"
  by code_simp

lemma ancestors_last: "ancestors t j \<noteq> [] \<Longrightarrow> last (ancestors t j) = nid t"
  by (cases t) (auto simp: Let_def split: if_splits)

lemma nid_remove_node [simp]: "nid (remove_node c t) = nid t"
  by (cases t) simp

lemma ids_remove_node_subset: "set (ids (remove_node c t)) \<subseteq> set (ids t)"
proof (induction t)
  case (Nd i ts)
  then show ?case by fastforce
qed

lemma ids_remove_node_notin: "nid t \<noteq> c \<Longrightarrow> c \<notin> set (ids (remove_node c t))"
proof (induction t)
  case (Nd i ts)
  have "c \<notin> set (ids (remove_node c t))" if "t \<in> set ts" "nid t \<noteq> c" for t
    using Nd.IH that by blast
  with Nd.prems show ?case by auto
qed

lemma distinct_remove_node: "distinct (ids t) \<Longrightarrow> distinct (ids (remove_node c t))"
proof (induction t)
  case (Nd i ts)
  have kids: "distinct (concat (map ids (map (remove_node c) (filter (\<lambda>t. nid t \<noteq> c) ts))))"
    if "distinct (concat (map ids ts))"
       "\<And>t. t \<in> set ts \<Longrightarrow> distinct (ids t) \<Longrightarrow> distinct (ids (remove_node c t))"
    using that
  proof (induction ts)
    case Nil
    then show ?case by simp
  next
    case (Cons a ts)
    have "set (concat (map ids (map (remove_node c) (filter (\<lambda>t. nid t \<noteq> c) ts)))) \<subseteq>
          set (concat (map ids ts))"
      using ids_remove_node_subset by fastforce
    with Cons ids_remove_node_subset[of c a] show ?case
      by (auto simp del: map_map) blast
  qed
  have "distinct (concat (map ids (map (remove_node c) (filter (\<lambda>t. nid t \<noteq> c) ts))))"
    using Nd by (intro kids) auto
  moreover have "i \<notin> set (concat (map ids (map (remove_node c) (filter (\<lambda>t. nid t \<noteq> c) ts))))"
    using Nd.prems ids_remove_node_subset by fastforce
  ultimately show ?case by (simp del: map_map)
qed

lemma ancestors_remove_node:
  "c \<notin> set (ancestors t j) \<Longrightarrow> ancestors (remove_node c t) j = ancestors t j"
proof (induction t)
  case (Nd i ts)
  show ?case
  proof (cases "i = j")
    case True
    then show ?thesis by simp
  next
    case False
    have kids: "first_path (map (\<lambda>t. ancestors t j) (map (remove_node c) (filter (\<lambda>t. nid t \<noteq> c) us))) =
          first_path (map (\<lambda>t. ancestors t j) us)"
      if "\<And>t. t \<in> set us \<Longrightarrow> c \<notin> set (ancestors t j) \<Longrightarrow> ancestors (remove_node c t) j = ancestors t j"
         "c \<notin> set (first_path (map (\<lambda>t. ancestors t j) us))" for us
      using that
    proof (induction us)
      case Nil
      then show ?case by simp
    next
      case (Cons a us)
      show ?case
      proof (cases "ancestors a j = []")
        case True
        then have "ancestors (remove_node c a) j = []"
          using Cons.prems(1)[of a] by simp
        with True Cons show ?thesis by simp
      next
        case ne: False
        with Cons.prems(2) have ca: "c \<notin> set (ancestors a j)" by simp
        from ne ancestors_last[OF ne] have "nid a \<in> set (ancestors a j)"
          using last_in_set by metis
        with ca have "nid a \<noteq> c" by auto
        moreover have "ancestors (remove_node c a) j = ancestors a j"
          using Cons.prems(1)[of a] ca by simp
        ultimately show ?thesis using ne by simp
      qed
    qed
    from Nd.prems False have c: "c \<notin> set (first_path (map (\<lambda>t. ancestors t j) ts))"
      by (auto simp: Let_def split: if_splits)
    have "first_path (map (\<lambda>t. ancestors t j) (map (remove_node c) (filter (\<lambda>t. nid t \<noteq> c) ts))) =
          first_path (map (\<lambda>t. ancestors t j) ts)"
      using Nd.IH c by (intro kids) auto
    with False show ?thesis by (simp add: Let_def del: map_map)
  qed
qed

lemma subtree_remove_node:
  "c \<notin> set (ancestors t r) \<Longrightarrow> subtree (remove_node c t) r = map_option (remove_node c) (subtree t r)"
proof (induction t)
  case (Nd i ts)
  show ?case
  proof (cases "i = r")
    case True
    then show ?thesis by simp
  next
    case False
    have none: "subtree a r = None \<longleftrightarrow> ancestors a r = []" for a
      by (simp add: subtree_None_iff ancestors_Nil_iff)
    have kids: "first_some (map (\<lambda>t. subtree t r) (map (remove_node c) (filter (\<lambda>t. nid t \<noteq> c) us))) =
          map_option (remove_node c) (first_some (map (\<lambda>t. subtree t r) us))"
      if "\<And>t. t \<in> set us \<Longrightarrow> c \<notin> set (ancestors t r) \<Longrightarrow>
             subtree (remove_node c t) r = map_option (remove_node c) (subtree t r)"
         "c \<notin> set (first_path (map (\<lambda>t. ancestors t r) us))" for us
      using that
    proof (induction us)
      case Nil
      then show ?case by simp
    next
      case (Cons a us)
      show ?case
      proof (cases "ancestors a r = []")
        case True
        then have "subtree a r = None" by (simp add: none)
        moreover from True have "subtree (remove_node c a) r = None"
          using Cons.prems(1)[of a] none by simp
        ultimately show ?thesis using True Cons by simp
      next
        case ne: False
        with Cons.prems(2) have ca: "c \<notin> set (ancestors a r)" by simp
        from ne ancestors_last[OF ne] have "nid a \<in> set (ancestors a r)"
          using last_in_set by metis
        with ca have na: "nid a \<noteq> c" by auto
        from ne obtain s where s: "subtree a r = Some s" using none[of a] by auto
        have "subtree (remove_node c a) r = Some (remove_node c s)"
          using Cons.prems(1)[of a] ca s by simp
        with s na show ?thesis by simp
      qed
    qed
    from Nd.prems False have c: "c \<notin> set (first_path (map (\<lambda>t. ancestors t r) ts))"
      by (auto simp: Let_def split: if_splits)
    have "first_some (map (\<lambda>t. subtree t r) (map (remove_node c) (filter (\<lambda>t. nid t \<noteq> c) ts))) =
          map_option (remove_node c) (first_some (map (\<lambda>t. subtree t r) ts))"
      using Nd.IH c by (intro kids) auto
    with False show ?thesis by (simp del: map_map)
  qed
qed

lemma tl_ids_remove_node_subset: "set (tl (ids (remove_node c s))) \<subseteq> set (tl (ids s))"
proof (cases s)
  case (Nd i ts)
  have "set (concat (map ids (map (remove_node c) (filter (\<lambda>t. nid t \<noteq> c) ts)))) \<subseteq>
        set (concat (map ids ts))"
    using ids_remove_node_subset by fastforce
  with Nd show ?thesis by (simp del: map_map)
qed

lemma descendants_remove_node:
  assumes "c \<notin> set (ancestors t r)"
  shows "set (descendants (remove_node c t) r) \<subseteq> set (descendants t r)"
proof (cases "subtree t r")
  case None
  with assms show ?thesis by (simp add: descendants_def subtree_remove_node)
next
  case (Some s)
  with assms tl_ids_remove_node_subset[of c s] show ?thesis
    by (simp add: descendants_def subtree_remove_node)
qed

lemma first_path_append:
  "first_path (xs @ ys) = (if first_path xs = [] then first_path ys else first_path xs)"
  by (induction xs) auto

lemma first_path_shift:
  assumes "\<And>t. t \<in> set ts \<Longrightarrow> f t = (if g t = [] then [] else c # g t)"
  shows "first_path (map f ts) = (if first_path (map g ts) = [] then [] else c # first_path (map g ts))"
  using assms by (induction ts) auto

lemma ancestors_append_new:
  "distinct (ids t) \<Longrightarrow> c \<notin> set (ids t) \<Longrightarrow>
   ancestors (append_node p c t) c = (if ancestors t p = [] then [] else c # ancestors t p)"
proof (induction t)
  case (Nd i ts)
  have ic: "i \<noteq> c" using Nd.prems(2) by auto
  have kid: "ancestors (append_node p c t) c = (if ancestors t p = [] then [] else c # ancestors t p)"
    if "t \<in> set ts" for t
  proof -
    from that Nd.prems have "distinct (ids t)" "c \<notin> set (ids t)" by (auto simp: distinct_concat_iff)
    with Nd.IH[OF that] show ?thesis by simp
  qed
  have fp: "first_path (map (\<lambda>t. ancestors t c) (map (append_node p c) ts)) =
        (if first_path (map (\<lambda>t. ancestors t p) ts) = [] then []
         else c # first_path (map (\<lambda>t. ancestors t p) ts))"
    unfolding map_map comp_def by (rule first_path_shift) (use kid in auto)
  show ?case
  proof (cases "i = p")
    case True
    have "p \<notin> set (ids t)" if "t \<in> set ts" for t
      using Nd.prems(1) True that by auto
    then have "first_path (map (\<lambda>t. ancestors t p) ts) = []"
      by (simp add: first_path_Nil_iff ancestors_Nil_iff)
    with True ic fp show ?thesis
      by (simp add: Let_def first_path_append del: map_map)
  next
    case False
    with ic fp show ?thesis
      by (simp add: Let_def del: map_map)
  qed
qed

lemma placeholders_filter:
  "placeholders d = filter (\<lambda>c. btgEmbed (props d c) \<noteq> None) (ids (tree d))"
  by (simp add: placeholders_def document_querySelectorAll_def matches_def)

lemma set_placeholders:
  "set (placeholders d) = {c \<in> set (ids (tree d)). btgEmbed (props d c) \<noteq> None}"
  by (simp add: placeholders_filter)

lemma owner_of_container:
  "listeners (props d c) = listeners (container_element w ow p c') \<Longrightarrow> owner_of d c = ow"
  by (simp add: owner_of_def container_element_def)

lemma placeholder_ok_owner:
  assumes "placeholder_ok d c"
  obtains ow where "owner_of d c = Some ow" "ow \<in> set (ids (tree d))"
    "btgEmbed (props d ow) = None" "truthy (btgOwnerDone (props d ow))"
  using assms unfolding placeholder_ok_def by (auto dest: owner_of_container)

lemma kept_fields:
  assumes "kept e e'"
  shows "btgEmbed e' = btgEmbed e" "listeners e' = listeners e" "tagName e' = tagName e"
    "truthy (btgOwnerDone e) \<Longrightarrow> truthy (btgOwnerDone e')"
  using assms kept_tagName[OF assms] by (simp_all add: kept_def)

lemma placeholders_dyn:
  assumes "dyn d d'"
  shows "placeholders d' = placeholders d"
proof -
  have t: "tree d' = tree d" using assms by (simp add: dyn_def)
  have "btgEmbed (props d' c) = btgEmbed (props d c)" if "c \<in> set (ids (tree d))" for c
    using assms that kept_fields(1) by (simp add: dyn_def)
  then show ?thesis unfolding placeholders_filter t by (intro filter_cong) auto
qed

lemma owner_of_dyn:
  assumes "dyn d d'" "c \<in> set (ids (tree d))"
  shows "owner_of d' c = owner_of d c"
proof -
  have "listeners (props d' c) = listeners (props d c)"
    using assms kept_fields(2) by (simp add: dyn_def)
  then show ?thesis by (simp add: owner_of_def)
qed

lemma placeholder_ok_dyn:
  assumes d: "dyn d d'" and c: "c \<in> set (ids (tree d))" and ok: "placeholder_ok d c"
  shows "placeholder_ok d' c"
proof -
  have t: "tree d' = tree d" using d by (simp add: dyn_def)
  have k: "kept (props d j) (props d' j)" if "j \<in> set (ids (tree d))" for j
    using d that by (simp add: dyn_def)
  from ok obtain w ow p where l: "listeners (props d c) = listeners (container_element w (Some ow) p c)"
    and ow: "ow \<in> set (ids (tree d))" "btgEmbed (props d ow) = None"
      "truthy (btgOwnerDone (props d ow))"
    unfolding placeholder_ok_def by blast
  have "listeners (props d' c) = listeners (container_element w (Some ow) p c)"
    using kept_fields(2)[OF k[OF c]] l by simp
  moreover have "btgEmbed (props d' ow) = None" "truthy (btgOwnerDone (props d' ow))"
    using kept_fields(1,4)[OF k[OF ow(1)]] ow by simp_all
  moreover have "tagName (props d' c) = ''div''"
    using kept_fields(3)[OF k[OF c]] ok by (simp add: placeholder_ok_def)
  moreover have "childless d' c"
    using ok t by (simp add: placeholder_ok_def childless_def)
  ultimately show ?thesis
    unfolding placeholder_ok_def using ow(1) t by auto
qed

lemma consistent_dyn:
  assumes "consistent d" "dyn d d'"
  shows "consistent d'"
proof -
  have t: "tree d' = tree d" using assms(2) by (simp add: dyn_def)
  have p: "placeholders d' = placeholders d" using assms(2) by (rule placeholders_dyn)
  have in_ids: "c \<in> set (ids (tree d))" if "c \<in> set (placeholders d)" for c
    using that by (simp add: set_placeholders)
  have root: "nid (tree d) \<in> set (ids (tree d))" by (cases "tree d") simp
  have "btgEmbed (props d' (nid (tree d))) = btgEmbed (props d (nid (tree d)))"
    using assms(2) root kept_fields(1) by (simp add: dyn_def)
  moreover have "placeholder_ok d' c" if "c \<in> set (placeholders d)" for c
    using assms that in_ids placeholder_ok_dyn unfolding consistent_def by blast
  moreover have "owner_of d' c = owner_of d c" if "c \<in> set (placeholders d)" for c
    using owner_of_dyn[OF assms(2) in_ids[OF that]] .
  ultimately show ?thesis
    using assms(1) unfolding consistent_def p t by simp
qed

lemma closest_in_ancestors: "closest d el sel = Some a \<Longrightarrow> a \<in> set (ancestors (tree d) el)"
  by (auto simp: closest_def find_Some_iff)

lemma parentElement_in_ancestors:
  "parentElement d el = Some a \<Longrightarrow> a \<in> set (ancestors (tree d) el)"
  by (auto simp: parentElement_def split: list.splits)

lemma getOwnerNode_in_ancestors:
  assumes "getOwnerNode d el p = Some ow"
  shows "ow \<in> set (ancestors (tree d) el)"
proof -
  consider sel where "closest d el sel = Some ow" | "parentElement d el = Some ow"
    using assms unfolding getOwnerNode_def
    by (auto split: if_splits dest!: nullish_Some)
  then show ?thesis
    using closest_in_ancestors parentElement_in_ancestors by cases blast+
qed

lemma ancestors_self: "el \<in> set (ids (tree d)) \<Longrightarrow> el \<in> set (ancestors (tree d) el)"
  using ancestors_hd[of "tree d" el] ancestors_Nil_iff[of "tree d" el]
  by (metis list.set_sel(1))

lemma wrapper_of_in_ancestors:
  "el \<in> set (ids (tree d)) \<Longrightarrow> wrapper_of d el p \<in> set (ancestors (tree d) el)"
  unfolding wrapper_of_def
  by (auto simp: ancestors_self closest_in_ancestors split: option.splits)

lemma insertTarget_not_childless:
  assumes t: "insertTarget_of d el p ow = Some t"
    and ow: "\<And>o'. ow = Some o' \<Longrightarrow> o' \<in> set (ancestors (tree d) el)"
    and ch: "childless d t"
  shows "t = el"
proof (cases p)
  case True
  with t have "ow = Some t \<or> parentElement d el = Some t"
    by (auto simp: insertTarget_of_def dest: nullish_Some)
  then have "t \<in> set (ancestors (tree d) el)"
    using ow parentElement_in_ancestors by blast
  with ch show ?thesis by (auto simp: childless_def)
next
  case False
  let ?w = "wrapper_of d el False"
  from t False have "closest d ?w [IdStartsWith ''message-accessories''] = Some t \<or>
      parentElement d ?w = Some t"
    by (auto simp: insertTarget_of_def dest: nullish_Some)
  then have tw: "t \<in> set (ancestors (tree d) ?w)"
    using closest_in_ancestors parentElement_in_ancestors by blast
  with ch have wt: "?w = t" by (auto simp: childless_def)
  from tw have "?w \<in> set (ids (tree d))"
    using ancestors_Nil_iff[of "tree d" ?w] by auto
  show ?thesis
  proof (cases "closest d el [ClassContains ''imageWrapper'', ClassContains ''embedMedia'']")
    case None
    with wt show ?thesis by (simp add: wrapper_of_def)
  next
    case (Some a)
    then have "?w \<in> set (ancestors (tree d) el)"
      using closest_in_ancestors by (simp add: wrapper_of_def)
    with wt have "t \<in> set (ancestors (tree d) el)" by simp
    with ch show ?thesis by (auto simp: childless_def)
  qed
qed

lemma insertTarget_in_ids:
  assumes t: "insertTarget_of d el p ow = Some t"
    and ow: "\<And>o'. ow = Some o' \<Longrightarrow> o' \<in> set (ids (tree d))"
  shows "t \<in> set (ids (tree d))"
proof -
  from t consider "ow = Some t" | x sel where "closest d x sel = Some t" | x where "parentElement d x = Some t"
    by (auto simp: insertTarget_of_def split: if_splits dest!: nullish_Some)
  then show ?thesis
    using ow closest_in_ids parentElement_in_ids by cases blast+
qed

lemma insertTarget_None_owner:
  assumes "getOwnerNode d el p = None"
  shows "insertTarget_of d el p None = None"
proof -
  from assms have par: "parentElement d el = None"
    by (auto simp: getOwnerNode_def nullish_def split: if_splits option.splits)
  then have one: "a = el" if "a \<in> set (ancestors (tree d) el)" for a
    using that ancestors_hd[of "tree d" el]
    by (cases "ancestors (tree d) el"; cases "tl (ancestors (tree d) el)")
       (auto simp: parentElement_def)
  show ?thesis
  proof (cases p)
    case True
    with par show ?thesis by (simp add: insertTarget_of_def nullish_def)
  next
    case False
    have w: "wrapper_of d el False = el"
      using one closest_in_ancestors by (auto simp: wrapper_of_def split: option.splits)
    from assms False have "closest d el [IdStartsWith ''message-accessories''] = None"
      by (auto simp: getOwnerNode_def nullish_def split: option.splits)
    with False par w show ?thesis by (simp add: insertTarget_of_def nullish_def)
  qed
qed

lemma props_appendChild [simp]: "props (appendChild d t c) = props d"
  by (simp add: appendChild_def)

lemma tree_appendChild [simp]: "tree (appendChild d t c) = append_node t c (tree d)"
  by (simp add: appendChild_def)

lemma set_placeholders_append:
  assumes "t \<in> set (ids (tree d))" "btgEmbed (props d c) \<noteq> None"
  shows "set (placeholders (appendChild d t c)) = insert c (set (placeholders d))"
  using assms by (auto simp: set_placeholders ids_append_node_set)

lemma consistent_append:
  assumes inv: "consistent d"
    and c: "c \<notin> set (ids (tree d))"
    and pc: "props d c = container_element w (Some ow) p c"
    and t: "t \<in> set (ids (tree d))" "btgEmbed (props d t) = None"
    and ow: "ow \<in> set (ids (tree d))" "btgEmbed (props d ow) = None"
      "truthy (btgOwnerDone (props d ow))"
    and other: "\<And>c2. c2 \<in> set (placeholders d) \<Longrightarrow> owner_of d c2 \<noteq> Some ow"
  shows "consistent (appendChild d t c)"
proof -
  let ?d = "appendChild d t c"
  have dist: "distinct (ids (tree d))" using inv by (simp add: consistent_def)
  have be: "btgEmbed (props d c) \<noteq> None" using pc by (simp add: container_element_def)
  have ph: "set (placeholders ?d) = insert c (set (placeholders d))"
    using t(1) be by (rule set_placeholders_append)
  have anc_old: "ancestors (tree ?d) j = ancestors (tree d) j" if "j \<noteq> c" for j
    using that by (simp add: ancestors_append_node)
  have anc_new: "ancestors (tree ?d) c = c # ancestors (tree d) t"
    using ancestors_append_new[OF dist c, of t] t(1) by (simp add: ancestors_Nil_iff)
  have sub: "set (ids (tree d)) \<subseteq> set (ids (tree ?d))"
    by (auto simp: ids_append_node_set)
  have old_ok: "placeholder_ok ?d c2" if c2: "c2 \<in> set (placeholders d)" for c2
  proof -
    from inv c2 have ok: "placeholder_ok d c2" by (simp add: consistent_def)
    from c2 have c2i: "c2 \<in> set (ids (tree d))" by (simp add: set_placeholders)
    with c have ne: "c2 \<noteq> c" by auto
    have "childless ?d c2"
      unfolding childless_def
    proof (intro allI impI)
      fix j assume j: "c2 \<in> set (ancestors (tree ?d) j)"
      show "j = c2"
      proof (cases "j = c")
        case False
        with j anc_old ok show ?thesis by (simp add: placeholder_ok_def childless_def)
      next
        case True
        with j anc_new ne have "c2 \<in> set (ancestors (tree d) t)" by simp
        with ok have "t = c2" by (simp add: placeholder_ok_def childless_def)
        with c2 t(2) show ?thesis by (simp add: set_placeholders)
      qed
    qed
    with ok sub show ?thesis unfolding placeholder_ok_def by auto
  qed
  have new_ok: "placeholder_ok ?d c"
  proof -
    have "childless ?d c"
      unfolding childless_def
    proof (intro allI impI)
      fix j assume j: "c \<in> set (ancestors (tree ?d) j)"
      show "j = c"
      proof (rule ccontr)
        assume "j \<noteq> c"
        with j anc_old have "c \<in> set (ancestors (tree d) j)" by simp
        with ancestors_in_ids c show False by blast
      qed
    qed
    moreover have "tagName (props ?d c) = ''div''"
      using pc by (simp add: container_element_def new_element_def)
    ultimately show ?thesis
      unfolding placeholder_ok_def using pc ow sub by auto
  qed
  have own_new: "owner_of ?d c = Some ow"
    using pc by (simp add: owner_of_container[of _ _ w "Some ow" p c])
  have own_old: "owner_of ?d c2 = owner_of d c2" for c2
    by (simp add: owner_of_def)
  have inj: "c1 = c2" if "c1 \<in> set (placeholders ?d)" "c2 \<in> set (placeholders ?d)"
    "owner_of ?d c1 = owner_of ?d c2" for c1 c2
  proof -
    have old: "a = b" if "a \<in> set (placeholders d)" "b \<in> set (placeholders d)"
      "owner_of d a = owner_of d b" for a b
      using inv that unfolding consistent_def by blast
    from that ph consider "c1 = c" "c2 = c" | "c1 = c" "c2 \<in> set (placeholders d)"
      | "c1 \<in> set (placeholders d)" "c2 = c"
      | "c1 \<in> set (placeholders d)" "c2 \<in> set (placeholders d)" by auto
    then show ?thesis
    proof cases
      case 1
      then show ?thesis by simp
    next
      case 2
      with that(3) own_new own_old other[of c2] show ?thesis by simp
    next
      case 3
      with that(3) own_new own_old other[of c1] show ?thesis by simp
    next
      case 4
      with that(3) own_old old show ?thesis by simp
    qed
  qed
  have "distinct (ids (tree ?d))"
    using dist c by (simp add: distinct_append_node)
  moreover have "btgEmbed (props ?d (nid (tree ?d))) = None"
    using inv by (simp add: consistent_def)
  moreover have "\<forall>x \<in> set (placeholders ?d). placeholder_ok ?d x"
    using ph old_ok new_ok by auto
  ultimately show ?thesis
    unfolding consistent_def using inj by blast
qed

lemma insertTarget_of_dyn:
  assumes "dyn d d'"
  shows "insertTarget_of d' el p ow = insertTarget_of d el p ow"
  by (simp add: insertTarget_of_def wrapper_of_dyn[OF assms] closest_dyn[OF assms]
      parentElement_dyn[OF assms])

lemma childless_dyn: "dyn d d' \<Longrightarrow> childless d' c = childless d c"
  by (simp add: childless_def dyn_def)

lemma btgOwnerDone_marked [simp]:
  "btgOwnerDone (props (marked d el) j) = btgOwnerDone (props d j)"
  by (simp add: marked_def props_update)

lemma dyn_tree: "dyn d d' \<Longrightarrow> tree d' = tree d"
  by (simp add: dyn_def)

lemma dyn_kept: "dyn d d' \<Longrightarrow> j \<in> set (ids (tree d)) \<Longrightarrow> kept (props d j) (props d' j)"
  by (simp add: dyn_def)

lemma consistent_processElement:
  assumes inv: "consistent d" and el: "el \<notin> set (placeholders d)"
  shows "consistent (dom_of (processElement this d el))"
proof (cases "settled this d el")
  case True
  with inv show ?thesis by (simp add: processElement_settled)
next
  case False
  let ?p = "isInGifPicker d el"
  let ?ow = "getOwnerNode d el ?p"
  let ?m = "marked d el"
  let ?D = "owned ?m ?ow"
  let ?B = "built ?D el ?p ?ow"
  note pe = processElement_unsettled[OF False, unfolded Let_def]
  show ?thesis
  proof (cases "case ?ow of None \<Rightarrow> False | Some ow \<Rightarrow> truthy (btgOwnerDone (props ?m ow))")
    case True
    have "dyn ?m (update ?m (wrapper_of d el ?p) (\<lambda>x. x\<lparr>display := ''none''\<rparr>))"
      by (rule dyn_update) simp
    with dyn_marked have "dyn d (update ?m (wrapper_of d el ?p) (\<lambda>x. x\<lparr>display := ''none''\<rparr>))"
      by (rule dyn_trans)
    with inv have "consistent (update ?m (wrapper_of d el ?p) (\<lambda>x. x\<lparr>display := ''none''\<rparr>))"
      by (rule consistent_dyn)
    with True show ?thesis by (simp add: pe)
  next
    case nd: False
    have dD: "dyn d ?D" using dyn_trans[OF dyn_marked dyn_owned] .
    have dB: "dyn d ?B" using dyn_trans[OF dD dyn_built] .
    have iB: "consistent ?B" using inv dB by (rule consistent_dyn)
    have tB: "tree ?B = tree d" using dB by (rule dyn_tree)
    have tD: "tree ?D = tree d" using dD by (rule dyn_tree)
    have phB: "placeholders ?B = placeholders d" using dB by (rule placeholders_dyn)
    have res: "dom_of (processElement this d el) =
        (case insertTarget_of ?D el ?p ?ow of None \<Rightarrow> ?B
         | Some t \<Rightarrow> appendChild ?B t (fresh ?D))"
      using nd by (simp add: pe hideAndEmbed_dom)
    show ?thesis
    proof (cases "insertTarget_of ?D el ?p ?ow")
      case None
      with res iB show ?thesis by simp
    next
      case (Some t)
      have it: "insertTarget_of d el ?p ?ow = Some t"
        using Some insertTarget_of_dyn[OF dD] by simp
      have "?ow \<noteq> None"
      proof
        assume n: "?ow = None"
        with insertTarget_None_owner[of d el ?p] it show False by simp
      qed
      then obtain ow where ow: "?ow = Some ow" by auto
      have owa: "ow \<in> set (ancestors (tree d) el)"
        using ow by (rule getOwnerNode_in_ancestors)
      then have owi: "ow \<in> set (ids (tree d))" using ancestors_in_ids by blast
      have eli: "el \<in> set (ids (tree d))"
        using getOwnerNode_in_ids(2)[OF ow] .
      have np: "btgEmbed (props d a) = None" if a: "a \<in> set (ancestors (tree d) el)" for a
      proof (rule ccontr)
        assume "btgEmbed (props d a) \<noteq> None"
        with a ancestors_in_ids have ap: "a \<in> set (placeholders d)"
          by (auto simp: set_placeholders)
        with inv have "childless d a" by (simp add: consistent_def placeholder_ok_def)
        with a have "el = a" by (auto simp: childless_def)
        with ap el show False by simp
      qed
      have ti: "t \<in> set (ids (tree d))"
        using it owi ow by (intro insertTarget_in_ids[OF it]) simp
      have tnp: "btgEmbed (props d t) = None"
      proof (rule ccontr)
        assume "btgEmbed (props d t) \<noteq> None"
        with ti have tp: "t \<in> set (placeholders d)" by (simp add: set_placeholders)
        with inv have "childless d t" by (simp add: consistent_def placeholder_ok_def)
        with it have "t = el"
          using owa ow by (intro insertTarget_not_childless[OF it]) simp_all
        with tp el show False by simp
      qed
      have c: "fresh ?D \<notin> set (ids (tree ?B))"
        using fresh_notin[of ?D] tD tB by simp
      have kB: "kept (props d j) (props ?B j)" if "j \<in> set (ids (tree d))" for j
        using dB that by (rule dyn_kept)
      have "truthy (btgOwnerDone (props ?D ow))"
        using ow by (simp add: owned_def props_update truthy_def)
      moreover have "kept (props ?D ow) (props ?B ow)"
        using dyn_kept[OF dyn_built] owi tD by simp
      ultimately have mk: "truthy (btgOwnerDone (props ?B ow))"
        using kept_fields(4) by blast
      have other: "owner_of ?B c2 \<noteq> Some ow" if c2: "c2 \<in> set (placeholders ?B)" for c2
      proof -
        from c2 phB have c2d: "c2 \<in> set (placeholders d)" by simp
        then have c2i: "c2 \<in> set (ids (tree d))" by (simp add: set_placeholders)
        from inv c2d have "placeholder_ok d c2" by (simp add: consistent_def)
        then obtain o2 where o2: "owner_of d c2 = Some o2" "truthy (btgOwnerDone (props d o2))"
          by (rule placeholder_ok_owner)
        from nd ow have "\<not> truthy (btgOwnerDone (props d ow))" by simp
        with o2 have "o2 \<noteq> ow" by auto
        with o2 owner_of_dyn[OF dB c2i] show ?thesis by simp
      qed
      have "consistent (appendChild ?B t (fresh ?D))"
      proof (rule consistent_append[OF iB c _ _ _ _ _ mk other])
        show "props ?B (fresh ?D) = container_element (wrapper_of ?D el ?p) (Some ow) ?p (fresh ?D)"
          using props_built_fresh[of ?D el ?p ?ow] ow by simp
        show "t \<in> set (ids (tree ?B))" using ti tB by simp
        show "btgEmbed (props ?B t) = None" using kept_fields(1)[OF kB[OF ti]] tnp by simp
        show "ow \<in> set (ids (tree ?B))" using owi tB by simp
        show "btgEmbed (props ?B ow) = None"
          using kept_fields(1)[OF kB[OF owi]] np[OF owa] by simp
      qed simp
      with res Some show ?thesis by simp
    qed
  qed
qed

lemma consistent_forEach:
  assumes "consistent d" "set xs \<subseteq> set (ids (tree d))"
    "\<And>x. x \<in> set xs \<Longrightarrow> btgEmbed (props d x) = None"
  shows "consistent (dom_of (forEach xs (processElement this) d))"
  using assms
proof (induction xs arbitrary: d)
  case Nil
  then show ?case by simp
next
  case (Cons x xs)
  have "x \<notin> set (placeholders d)"
    using Cons.prems(3)[of x] by (simp add: set_placeholders)
  with Cons.prems(1) have c1: "consistent (dom_of (processElement this d x))"
    by (rule consistent_processElement)
  show ?case
  proof (cases "processElement this d x")
    case (Inl thrown)
    with c1 show ?thesis by (cases thrown) simp
  next
    case (Inr d1)
    then have e: "ext d d1" by (rule processElement_ext)
    from c1 Inr have i1: "consistent d1" by simp
    have s1: "set xs \<subseteq> set (ids (tree d1))"
      using Cons.prems(2) e by (auto simp: ext_def)
    have b1: "btgEmbed (props d1 y) = None" if "y \<in> set xs" for y
    proof -
      from that Cons.prems(2) have "y \<in> set (ids (tree d))" by auto
      with e have "kept (props d y) (props d1 y)" unfolding ext_def by blast
      with Cons.prems(3)[of y] that show ?thesis by (simp add: kept_def)
    qed
    from Cons.IH[OF i1 s1 b1] Inr show ?thesis by simp
  qed
qed

lemma consistent_forEach_outside:
  assumes "consistent d" "el \<notin> set (ids (tree d))" "set xs \<subseteq> {el}"
  shows "consistent (dom_of (forEach xs (processElement this) d))"
  using assms(3)
proof (induction xs)
  case Nil
  with assms(1) show ?case by simp
next
  case (Cons x xs)
  then have x: "x = el" by simp
  with assms(2) have "x \<notin> set (placeholders d)" by (simp add: set_placeholders)
  with assms(1) have c1: "consistent (dom_of (processElement this d x))"
    by (rule consistent_processElement)
  show ?case
  proof (cases "processElement this d x")
    case (Inl thrown)
    with c1 show ?thesis by (cases thrown) simp
  next
    case (Inr d1)
    with x assms(2) have "d1 = d" using processElement_outside by blast
    with Inr Cons show ?thesis by simp
  qed
qed

lemma candidate_not_placeholder:
  assumes "consistent d" "matches d x [Tag ''img'', Tag ''video'', AnchorWithHref]"
    "x \<in> set (ids (tree d))"
  shows "btgEmbed (props d x) = None"
proof (rule ccontr)
  assume "btgEmbed (props d x) \<noteq> None"
  with assms(3) have "x \<in> set (placeholders d)" by (simp add: set_placeholders)
  with assms(1) have "tagName (props d x) = ''div''"
    by (simp add: consistent_def placeholder_ok_def)
  with assms(2) not_candidate_div show False by blast
qed

lemma consistent_processContainer:
  assumes "consistent d"
  shows "consistent (dom_of (processContainer this d n))"
proof (cases n)
  case OtherNode
  with assms show ?thesis by (simp add: processContainer_def)
next
  case (HTMLElement c)
  let ?sel = "[Tag ''img'', Tag ''video'', AnchorWithHref]"
  show ?thesis
  proof (cases "c \<in> set (ids (tree d))")
    case False
    then have "set (candidates d c) \<subseteq> {c}"
      by (auto simp: set_candidates querySelectorAll_def descendants_outside)
    with assms False HTMLElement show ?thesis
      by (simp add: processContainer_candidates consistent_forEach_outside)
  next
    case True
    have sub: "set (candidates d c) \<subseteq> set (ids (tree d))"
      using True descendants_in_ids[of "tree d" c]
      by (auto simp: set_candidates querySelectorAll_def)
    have m: "matches d x ?sel" if "x \<in> set (candidates d c)" for x
      using that by (auto simp: set_candidates querySelectorAll_def split: if_splits)
    have "btgEmbed (props d x) = None" if "x \<in> set (candidates d c)" for x
      using candidate_not_placeholder[OF assms m[OF that]] sub that by blast
    with assms sub HTMLElement show ?thesis
      by (simp add: processContainer_candidates consistent_forEach)
  qed
qed

lemma consistent_forEach_nodes:
  assumes "consistent d"
  shows "consistent (dom_of (forEach ns (\<lambda>dd n. case n of OtherNode \<Rightarrow> Inr dd
            | HTMLElement c \<Rightarrow> processContainer this dd (HTMLElement c)) d))"
  using assms
proof (induction ns arbitrary: d)
  case Nil
  then show ?case by simp
next
  case (Cons n ns)
  let ?f = "\<lambda>dd n. case n of OtherNode \<Rightarrow> Inr dd
            | HTMLElement c \<Rightarrow> processContainer this dd (HTMLElement c)"
  have c1: "consistent (dom_of (?f d n))"
    using Cons.prems consistent_processContainer by (cases n) simp_all
  show ?case
  proof (cases "?f d n")
    case (Inl thrown)
    with c1 show ?thesis by (cases thrown) simp
  next
    case (Inr d1)
    with c1 Cons.IH[of d1] show ?thesis by simp
  qed
qed

lemma consistent_observerCallback:
  "consistent d \<Longrightarrow> consistent (dom_of (observerCallback this d ns))"
  unfolding observerCallback_def by (rule consistent_forEach_nodes)

lemma restyled_refl [simp]: "restyled e e"
  by (simp add: restyled_def)

lemma restyled_simps [simp]:
  "restyled e (e\<lparr>display := x\<rparr>)"
  "restyled e (e\<lparr>pointerEvents := x\<rparr>)"
  "restyled e (e\<lparr>btgClickBlocked := y\<rparr>)"
  "restyled e (e\<lparr>btgOwnerDone := y\<rparr>)"
  by (simp_all add: restyled_def)

lemma restyle_refl: "restyle d d"
  by (simp add: restyle_def)

lemma restyle_trans: "restyle a b \<Longrightarrow> restyle b c \<Longrightarrow> restyle a c"
  by (simp add: restyle_def restyled_def)

lemma restyle_update: "restyled (props d el) (f (props d el)) \<Longrightarrow> restyle d (update d el f)"
  by (simp add: restyle_def props_update)

lemma restyle_fold_display:
  "restyle d (fold (\<lambda>child dd. update dd child (\<lambda>x. x\<lparr>display := []\<rparr>)) xs d)"
proof (induction xs arbitrary: d)
  case Nil
  show ?case by (simp add: restyle_refl)
next
  case (Cons a xs)
  have "restyle d (update d a (\<lambda>x. x\<lparr>display := []\<rparr>))"
    by (rule restyle_update) simp
  from restyle_trans[OF this Cons.IH] show ?case by simp
qed

lemma btgOwnerDone_fold_display:
  "btgOwnerDone (props (fold (\<lambda>child dd. update dd child (\<lambda>x. x\<lparr>display := []\<rparr>)) xs d) j) =
   btgOwnerDone (props d j)"
  by (induction xs arbitrary: d) (simp_all add: props_update)

lemma tree_remove [simp]: "tree (remove d c) = remove_node c (tree d)"
  by (simp add: remove_def)

lemma props_remove [simp]: "props (remove d c) = props d"
  by (simp add: remove_def)

lemma body_remove [simp]: "body (remove d c) = body d"
  by (simp add: remove_def)

lemma revealed_facts:
  shows revealed_tree: "tree (revealed d w ow p c) = remove_node c (tree d)"
    and revealed_body: "body (revealed d w ow p c) = body d"
    and revealed_props: "restyled (props d j) (props (revealed d w ow p c) j)"
    and revealed_owner: "Some j \<noteq> ow \<Longrightarrow>
          btgOwnerDone (props (revealed d w ow p c) j) = btgOwnerDone (props d j)"
proof -
  define d1 where "d1 = update d w (\<lambda>x. x\<lparr>display := []\<rparr>)"
  define d2 where "d2 = fold (\<lambda>child dd. update dd child (\<lambda>x. x\<lparr>display := []\<rparr>))
                 (querySelectorAll d1 w [HasData BtgDone]) d1"
  define d3 where "d3 = (case ow of None \<Rightarrow> d2
                        | Some o' \<Rightarrow> update d2 o' (\<lambda>x. x\<lparr>btgOwnerDone := None\<rparr>))"
  define d4 where "d4 = remove d3 c"
  define d5 where "d5 = (if p then (case ow of None \<Rightarrow> d4
                      | Some o' \<Rightarrow> update (update d4 o' (\<lambda>x. x\<lparr>pointerEvents := []\<rparr>)) o'
                            (\<lambda>x. x\<lparr>btgClickBlocked := None\<rparr>))
             else d4)"
  have r: "revealed d w ow p c = d5"
    by (cases ow) (simp_all add: revealed_def Let_def d1_def d2_def d3_def d4_def d5_def)
  have r1: "restyle d d1" unfolding d1_def by (rule restyle_update) simp
  have r2: "restyle d d2" unfolding d2_def using restyle_trans[OF r1 restyle_fold_display] .
  have r3: "restyle d d3"
  proof (cases ow)
    case None
    with r2 show ?thesis by (simp add: d3_def)
  next
    case (Some o')
    have "restyle d2 (update d2 o' (\<lambda>x. x\<lparr>btgOwnerDone := None\<rparr>))"
      by (rule restyle_update) simp
    with r2 Some show ?thesis using restyle_trans by (simp add: d3_def)
  qed
  have t3: "tree d3 = tree d" "body d3 = body d"
    and p3: "restyled (props d j) (props d3 j)" for j
    using r3 by (simp_all add: restyle_def)
  have o1: "btgOwnerDone (props d1 j) = btgOwnerDone (props d j)"
    by (simp add: d1_def props_update)
  have o2: "btgOwnerDone (props d2 j) = btgOwnerDone (props d j)"
    unfolding d2_def by (simp add: btgOwnerDone_fold_display o1)
  have o3: "btgOwnerDone (props d3 j) = btgOwnerDone (props d j)" if "Some j \<noteq> ow"
    using that o2 by (cases ow) (simp_all add: d3_def props_update)
  have t5: "tree d5 = remove_node c (tree d)" "body d5 = body d"
    using t3 by (cases ow; simp add: d5_def d4_def)+
  have p5: "props d5 j = props d3 j \<or>
      (\<exists>x y. props d5 j = (props d3 j)\<lparr>pointerEvents := x, btgClickBlocked := y\<rparr>)"
    by (cases ow) (auto simp: d5_def d4_def props_update)
  show "tree (revealed d w ow p c) = remove_node c (tree d)" using r t5 by simp
  show "body (revealed d w ow p c) = body d" using r t5 by simp
  show "restyled (props d j) (props (revealed d w ow p c) j)"
    using p5 p3[of j] unfolding r by (auto simp: restyled_def)
  show "btgOwnerDone (props (revealed d w ow p c) j) = btgOwnerDone (props d j)" if "Some j \<noteq> ow"
    using p5 o3[OF that] unfolding r by auto
qed

lemma click_placeholder:
  assumes c: "c \<in> set (ids (tree d))"
    and l: "listeners (props d c) = listeners (container_element w ow p c)"
  shows "dispatchEvent d c ''click'' = ([c], revealed d w ow p c)"
proof -
  from c have "ancestors (tree d) c \<noteq> []" by (simp add: ancestors_Nil_iff)
  then obtain up where up: "ancestors (tree d) c = c # up"
    using ancestors_hd[of "tree d" c] by (cases "ancestors (tree d) c") auto
  have here: "map snd (filter (\<lambda>tl. fst tl = ''click'') (listeners (props d c))) = [Reveal w ow p c]"
    using l by (simp add: container_element_def)
  obtain e' d' where h: "handle (Reveal w ow p c) (\<lparr>etype = ''click'', propagationStopped = False\<rparr>, d) = (e', d')"
    by fastforce
  with handle_Reveal_stops[of w ow p c "\<lparr>etype = ''click'', propagationStopped = False\<rparr>" d]
  have "propagationStopped e'" by simp
  with h here show ?thesis
    by (simp add: dispatchEvent_def up Let_def revealed_def)
qed

lemma restyled_fields:
  assumes "restyled e e'"
  shows "btgEmbed e' = btgEmbed e" "listeners e' = listeners e" "tagName e' = tagName e"
    "btgDone e' = btgDone e" "static e' = static e"
proof -
  from assms have s: "static e' = static e" by (simp add: restyled_def)
  then show "tagName e' = tagName e" by (rule static_fields)
  show "btgEmbed e' = btgEmbed e" "listeners e' = listeners e" "btgDone e' = btgDone e"
    "static e' = static e"
    using assms by (simp_all add: restyled_def)
qed

lemma ids_remove_node_kept:
  assumes "j \<in> set (ids t)" "c \<notin> set (ancestors t j)"
  shows "j \<in> set (ids (remove_node c t))"
proof -
  from assms(1) have "ancestors t j \<noteq> []" by (simp add: ancestors_Nil_iff)
  with ancestors_remove_node[OF assms(2)] have "ancestors (remove_node c t) j \<noteq> []" by simp
  then show ?thesis by (simp add: ancestors_Nil_iff)
qed

lemma consistent_revealed:
  assumes inv: "consistent d" and c: "c \<in> set (placeholders d)"
    and l: "listeners (props d c) = listeners (container_element w (Some ow) p c)"
  shows "consistent (revealed d w (Some ow) p c)"
proof -
  let ?d = "revealed d w (Some ow) p c"
  have t: "tree ?d = remove_node c (tree d)" by (rule revealed_tree)
  have pr: "restyled (props d j) (props ?d j)" for j by (rule revealed_props)
  have od: "btgOwnerDone (props ?d j) = btgOwnerDone (props d j)" if "j \<noteq> ow" for j
    using that by (intro revealed_owner) simp
  have ci: "c \<in> set (ids (tree d))" and ce: "btgEmbed (props d c) \<noteq> None"
    using c by (simp_all add: set_placeholders)
  have root: "nid (tree d) \<noteq> c" using inv ce by (auto simp: consistent_def)
  have okc: "placeholder_ok d c" using inv c by (simp add: consistent_def)
  then have chc: "childless d c" by (simp add: placeholder_ok_def)
  have oc: "owner_of d c = Some ow" using l by (rule owner_of_container)
  have sub: "set (ids (tree ?d)) \<subseteq> set (ids (tree d))" "c \<notin> set (ids (tree ?d))"
    using ids_remove_node_subset[of c "tree d"] ids_remove_node_notin[OF root] t by auto
  have keep: "j \<in> set (ids (tree ?d))" if "j \<in> set (ids (tree d))" "j \<noteq> c" for j
  proof -
    from chc that(2) have "c \<notin> set (ancestors (tree d) j)" by (auto simp: childless_def)
    with that(1) show ?thesis unfolding t by (rule ids_remove_node_kept)
  qed
  have anc: "ancestors (tree ?d) j = (if j = c then [] else ancestors (tree d) j)" for j
  proof (cases "j = c")
    case True
    with sub(2) show ?thesis by (simp add: ancestors_Nil_iff)
  next
    case False
    with chc have "c \<notin> set (ancestors (tree d) j)" by (auto simp: childless_def)
    with False show ?thesis unfolding t by (simp add: ancestors_remove_node)
  qed
  have ph: "set (placeholders ?d) \<subseteq> set (placeholders d) - {c}"
    using sub restyled_fields(1)[OF pr] by (auto simp: set_placeholders)
  have own: "owner_of ?d j = owner_of d j" for j
    using restyled_fields(2)[OF pr, of j] by (simp add: owner_of_def)
  have inj: "a = b" if "a \<in> set (placeholders d)" "b \<in> set (placeholders d)"
    "owner_of d a = owner_of d b" for a b
    using inv that unfolding consistent_def by blast
  have ok: "placeholder_ok ?d c2" if c2: "c2 \<in> set (placeholders ?d)" for c2
  proof -
    from c2 ph have c2d: "c2 \<in> set (placeholders d)" and ne: "c2 \<noteq> c" by auto
    from inv c2d have ok2: "placeholder_ok d c2" by (simp add: consistent_def)
    then obtain w2 o2 p2 where l2: "listeners (props d c2) = listeners (container_element w2 (Some o2) p2 c2)"
      and o2: "o2 \<in> set (ids (tree d))" "btgEmbed (props d o2) = None"
        "truthy (btgOwnerDone (props d o2))"
      unfolding placeholder_ok_def by blast
    have "owner_of d c2 = Some o2" using l2 by (rule owner_of_container)
    with oc inj[OF c2d c] ne have "o2 \<noteq> ow" by auto
    from o2(2) ce have "o2 \<noteq> c" by auto
    have "childless ?d c2"
      using ok2 ne unfolding childless_def placeholder_ok_def anc by auto
    moreover have "tagName (props ?d c2) = ''div''"
      using restyled_fields(3)[OF pr, of c2] ok2 by (simp add: placeholder_ok_def)
    moreover have "listeners (props ?d c2) = listeners (container_element w2 (Some o2) p2 c2)"
      using restyled_fields(2)[OF pr, of c2] l2 by simp
    moreover have "o2 \<in> set (ids (tree ?d))" using keep[OF o2(1) \<open>o2 \<noteq> c\<close>] .
    moreover have "btgEmbed (props ?d o2) = None"
      using restyled_fields(1)[OF pr, of o2] o2(2) by simp
    moreover have "truthy (btgOwnerDone (props ?d o2))"
      using od[OF \<open>o2 \<noteq> ow\<close>] o2(3) by simp
    ultimately show ?thesis unfolding placeholder_ok_def by blast
  qed
  have "distinct (ids (tree ?d))"
    using inv unfolding t by (simp add: consistent_def distinct_remove_node)
  moreover have "btgEmbed (props ?d (nid (tree ?d))) = None"
    using inv restyled_fields(1)[OF pr] unfolding t by (simp add: consistent_def)
  moreover have "a = b" if "a \<in> set (placeholders ?d)" "b \<in> set (placeholders ?d)"
    "owner_of ?d a = owner_of ?d b" for a b
    using that ph inj[of a b] unfolding own by blast
  ultimately show ?thesis
    unfolding consistent_def using ok by blast
qed

lemma consistent_click:
  assumes inv: "consistent d" and c: "c \<in> set (placeholders d)"
  shows "consistent (snd (dispatchEvent d c ''click''))"
proof -
  from inv c have "placeholder_ok d c" by (simp add: consistent_def)
  then obtain w ow p where l: "listeners (props d c) = listeners (container_element w (Some ow) p c)"
    unfolding placeholder_ok_def by blast
  from c have "c \<in> set (ids (tree d))" by (simp add: set_placeholders)
  from click_placeholder[OF this l] consistent_revealed[OF inv c l] show ?thesis by simp
qed

lemma clear_all_eq: "clear_all d = clear_markers (remove_placeholders d)"
proof -
  have r: "restore_one = (\<lambda>el dd.
      (case closest (update (update dd el (\<lambda>x. x\<lparr>display := []\<rparr>)) el (\<lambda>x. x\<lparr>btgDone := None\<rparr>)) el
              [ClassContains ''imageWrapper'', ClassContains ''gifFavorite'',
               ClassContains ''embedMedia''] of
         None \<Rightarrow> update (update dd el (\<lambda>x. x\<lparr>display := []\<rparr>)) el (\<lambda>x. x\<lparr>btgDone := None\<rparr>)
       | Some wrapper \<Rightarrow>
           update (update (update dd el (\<lambda>x. x\<lparr>display := []\<rparr>)) el (\<lambda>x. x\<lparr>btgDone := None\<rparr>))
             wrapper (\<lambda>x. x\<lparr>display := []\<rparr>)))"
    by (intro ext) (simp add: restore_one_def Let_def)
  show ?thesis
    unfolding clear_all_def clear_markers_def remove_placeholders_def r Let_def ..
qed

lemma unmark_refl: "unmark d d"
  by (simp add: unmark_def unmarked_def)

lemma unmark_trans: "unmark a b \<Longrightarrow> unmark b c \<Longrightarrow> unmark a c"
  by (simp add: unmark_def unmarked_def)

lemma unmark_update: "unmarked (props d el) (f (props d el)) \<Longrightarrow> unmark d (update d el f)"
  by (simp add: unmark_def props_update unmarked_def)

lemma unmarked_simps [simp]:
  "unmarked e (e\<lparr>display := x\<rparr>)"
  "unmarked e (e\<lparr>pointerEvents := x\<rparr>)"
  "unmarked e (e\<lparr>btgClickBlocked := y\<rparr>)"
  "unmarked e (e\<lparr>btgOwnerDone := y\<rparr>)"
  "unmarked e (e\<lparr>btgDone := y\<rparr>)"
  by (simp_all add: unmarked_def)

lemma unmark_fold:
  assumes "\<And>x dd. unmark dd (f x dd)"
  shows "unmark d (fold f xs d)"
proof (induction xs arbitrary: d)
  case Nil
  show ?case by (simp add: unmark_refl)
next
  case (Cons a xs)
  from unmark_trans[OF assms[of d a] Cons.IH] show ?case by simp
qed

lemma unmark_restore_one: "unmark dd (restore_one el dd)"
proof -
  define a where "a = update dd el (\<lambda>x. x\<lparr>display := []\<rparr>)"
  define b where "b = update a el (\<lambda>x. x\<lparr>btgDone := None\<rparr>)"
  have ua: "unmark dd a" unfolding a_def by (rule unmark_update) simp
  have ub: "unmark a b" unfolding b_def by (rule unmark_update) simp
  have uw: "unmark b (update b w (\<lambda>x. x\<lparr>display := []\<rparr>))" for w
    by (rule unmark_update) simp
  have "restore_one el dd =
      (case closest b el [ClassContains ''imageWrapper'', ClassContains ''gifFavorite'',
                          ClassContains ''embedMedia''] of
         None \<Rightarrow> b | Some wrapper \<Rightarrow> update b wrapper (\<lambda>x. x\<lparr>display := []\<rparr>))"
    unfolding restore_one_def a_def b_def Let_def ..
  then show ?thesis
    using unmark_trans[OF ua ub] unmark_trans[OF unmark_trans[OF ua ub] uw]
    by (auto split: option.splits)
qed

lemma unmark_clear_markers: "unmark d (clear_markers d)"
proof -
  define d2 where "d2 = fold restore_one (document_querySelectorAll d [HasData BtgDone]) d"
  define d3 where "d3 = fold (\<lambda>el dd. update dd el (\<lambda>x. x\<lparr>btgOwnerDone := None\<rparr>))
                (document_querySelectorAll d2 [HasData BtgOwnerDone]) d2"
  define d4 where "d4 = fold (\<lambda>el dd.
                  update (update dd el (\<lambda>x. x\<lparr>pointerEvents := []\<rparr>)) el
                    (\<lambda>x. x\<lparr>btgClickBlocked := None\<rparr>))
                (document_querySelectorAll d3 [HasData BtgClickBlocked]) d3"
  have "unmark d d2" unfolding d2_def by (rule unmark_fold) (rule unmark_restore_one)
  moreover have "unmark d2 d3" unfolding d3_def
    by (rule unmark_fold) (rule unmark_update, simp)
  moreover have "unmark d3 d4" unfolding d4_def
  proof (rule unmark_fold)
    fix x dd
    have "unmark dd (update dd x (\<lambda>x. x\<lparr>pointerEvents := []\<rparr>))"
      by (rule unmark_update) simp
    moreover have "unmark (update dd x (\<lambda>x. x\<lparr>pointerEvents := []\<rparr>))
        (update (update dd x (\<lambda>x. x\<lparr>pointerEvents := []\<rparr>)) x (\<lambda>x. x\<lparr>btgClickBlocked := None\<rparr>))"
      by (rule unmark_update) simp
    ultimately show "unmark dd (update (update dd x (\<lambda>x. x\<lparr>pointerEvents := []\<rparr>)) x
        (\<lambda>x. x\<lparr>btgClickBlocked := None\<rparr>))"
      by (rule unmark_trans)
  qed
  moreover have "clear_markers d = d4"
    unfolding clear_markers_def d2_def d3_def d4_def Let_def ..
  ultimately show ?thesis using unmark_trans by metis
qed

lemma fold_remove:
  "tree (fold (\<lambda>e dd. remove dd e) cs d) = fold remove_node cs (tree d) \<and>
   props (fold (\<lambda>e dd. remove dd e) cs d) = props d \<and>
   body (fold (\<lambda>e dd. remove dd e) cs d) = body d"
  by (induction cs arbitrary: d) simp_all

lemma fold_remove_node:
  assumes "nid t \<notin> set cs"
  shows "nid (fold remove_node cs t) = nid t"
    and "set (ids (fold remove_node cs t)) \<subseteq> set (ids t) - set cs"
    and "distinct (ids t) \<Longrightarrow> distinct (ids (fold remove_node cs t))"
  using assms
proof (induction cs arbitrary: t)
  case Nil
  {
    case 1 show ?case by simp
  next
    case 2 show ?case by simp
  next
    case 3 then show ?case by simp
  }
next
  case (Cons c cs)
  {
    case 1
    then have "nid (remove_node c t) \<notin> set cs" by simp
    from Cons.IH(1)[OF this] show ?case by simp
  next
    case 2
    then have n: "nid (remove_node c t) \<notin> set cs" and c: "nid t \<noteq> c" by auto
    from Cons.IH(2)[OF n] ids_remove_node_subset[of c t] ids_remove_node_notin[OF c]
    show ?case by auto
  next
    case 3
    then have n: "nid (remove_node c t) \<notin> set cs" by simp
    from 3 have "distinct (ids (remove_node c t))" by (simp add: distinct_remove_node)
    from Cons.IH(3)[OF this n] show ?case by simp
  }
qed

lemma placeholders_nil_consistent:
  assumes "distinct (ids (tree d))" "placeholders d = []"
  shows "consistent d"
proof -
  have "nid (tree d) \<in> set (ids (tree d))" by (cases "tree d") simp
  with assms(2) have "btgEmbed (props d (nid (tree d))) = None"
    by (auto simp: placeholders_filter filter_empty_conv)
  with assms show ?thesis by (simp add: consistent_def)
qed

lemma remove_placeholders_facts:
  assumes "consistent d"
  shows "distinct (ids (tree (remove_placeholders d)))"
    and "placeholders (remove_placeholders d) = []"
    and "props (remove_placeholders d) = props d"
    and "body (remove_placeholders d) = body d"
proof -
  let ?cs = "placeholders d"
  have r: "tree (remove_placeholders d) = fold remove_node ?cs (tree d)"
    "props (remove_placeholders d) = props d" "body (remove_placeholders d) = body d"
    using fold_remove[of ?cs d] by (simp_all add: remove_placeholders_def placeholders_def)
  have root: "nid (tree d) \<notin> set ?cs"
    using assms by (auto simp: consistent_def set_placeholders)
  show "distinct (ids (tree (remove_placeholders d)))"
    using fold_remove_node(3)[OF root] assms by (simp add: r consistent_def)
  have "set (ids (tree (remove_placeholders d))) \<subseteq> set (ids (tree d)) - set ?cs"
    using fold_remove_node(2)[OF root] by (simp add: r)
  then show "placeholders (remove_placeholders d) = []"
    unfolding placeholders_filter[of "remove_placeholders d"] r(2)
    by (auto simp: filter_empty_conv set_placeholders)
  show "props (remove_placeholders d) = props d" "body (remove_placeholders d) = body d"
    using r by simp_all
qed

lemma placeholders_unmark:
  assumes "unmark d d'"
  shows "placeholders d' = placeholders d"
proof -
  have "btgEmbed (props d' j) = btgEmbed (props d j)" for j
    using assms by (simp add: unmark_def unmarked_def)
  moreover have "tree d' = tree d" using assms by (simp add: unmark_def)
  ultimately show ?thesis by (simp add: placeholders_filter)
qed

lemma clear_all_facts:
  assumes "consistent d"
  shows "consistent (clear_all d)" and "placeholders (clear_all d) = []"
    and "body (clear_all d) = body d"
proof -
  note u = unmark_clear_markers[of "remove_placeholders d"]
  have p: "placeholders (clear_all d) = []"
    using placeholders_unmark[OF u] remove_placeholders_facts(2)[OF assms]
    by (simp add: clear_all_eq)
  moreover have "distinct (ids (tree (clear_all d)))"
    using u remove_placeholders_facts(1)[OF assms] by (simp add: clear_all_eq unmark_def)
  ultimately show "consistent (clear_all d)" by (simp add: placeholders_nil_consistent)
  show "placeholders (clear_all d) = []" by (rule p)
  show "body (clear_all d) = body d"
    using u remove_placeholders_facts(4)[OF assms] by (simp add: clear_all_eq unmark_def)
qed

lemma consistent_step:
  assumes "consistent d"
  shows "consistent (snd (step (this, d) a))"
proof (cases a)
  case Start
  have "consistent (dom_of (processContainer this d (HTMLElement (body d))))"
    using assms by (rule consistent_processContainer)
  with Start show ?thesis
    by (auto simp: start_def split: sum.splits)
next
  case Stop
  with assms show ?thesis by (simp add: stop_def clear_all_facts(1))
next
  case (Mutation ns)
  with assms show ?thesis by (simp add: consistent_observerCallback)
next
  case (Click c)
  with assms show ?thesis by (simp add: consistent_click)
next
  case (Change k v)
  have "consistent (clear_all d)" using assms by (rule clear_all_facts(1))
  then have "consistent (dom_of (processContainer (set_setting this k v) (clear_all d)
      (HTMLElement (body d))))"
    by (rule consistent_processContainer)
  with Change show ?thesis by (simp add: onChange_def rescan_def Let_def)
qed

lemma consistent_run:
  assumes "consistent d"
  shows "consistent (snd (run acts (this, d)))"
  using assms
proof (induction acts arbitrary: this d)
  case Nil
  then show ?case by (simp add: run_def)
next
  case (Cons a acts)
  obtain this' d' where s: "step (this, d) a = (this', d')" by fastforce
  with consistent_step[OF Cons.prems, of this a] have "consistent d'" by simp
  from Cons.IH[OF this, of this'] s show ?case by (simp add: run_def)
qed

lemma length_le_one:
  assumes "distinct xs" "\<And>a b. a \<in> set xs \<Longrightarrow> b \<in> set xs \<Longrightarrow> a = b"
  shows "length xs \<le> 1"
proof (cases xs)
  case Nil
  then show ?thesis by simp
next
  case (Cons a ys)
  show ?thesis
  proof (cases ys)
    case Nil
    with Cons show ?thesis by simp
  next
    case (Cons b zs)
    with \<open>xs = a # ys\<close> assms(2)[of a b] assms(1) show ?thesis by auto
  qed
qed

lemma consistent_one_per_owner:
  assumes "consistent d"
  shows "length (filter (\<lambda>c. owner_of d c = Some ow) (placeholders d)) \<le> 1"
proof (rule length_le_one)
  show "distinct (filter (\<lambda>c. owner_of d c = Some ow) (placeholders d))"
    using assms by (simp add: consistent_def placeholders_filter)
  fix a b
  assume "a \<in> set (filter (\<lambda>c. owner_of d c = Some ow) (placeholders d))"
    "b \<in> set (filter (\<lambda>c. owner_of d c = Some ow) (placeholders d))"
  then have "a \<in> set (placeholders d)" "b \<in> set (placeholders d)" "owner_of d a = owner_of d b"
    by simp_all
  with assms show "a = b" unfolding consistent_def by blast
qed

lemma processElement_dedup:
  assumes "\<not> settled this d el" "getOwnerNode d el (isInGifPicker d el) = Some ow"
    "truthy (btgOwnerDone (props d ow))"
  shows "processElement this d el =
     Inr (update (update d el (\<lambda>x. x\<lparr>btgDone := Some ''1''\<rparr>))
            (wrapper_of d el (isInGifPicker d el)) (\<lambda>x. x\<lparr>display := ''none''\<rparr>))"
  using assms(2,3)
  by (simp add: processElement_unsettled[OF assms(1)] Let_def marked_def[symmetric])

text \<open>
  C1. From a document without placeholders, after any sequence of \<^verbatim>\<open>start()\<close>,
  \<^verbatim>\<open>stop()\<close>, observer callbacks, clicks on reveal controls and settings changes, every
  owner unit has at most one placeholder in the document whose reveal listener was built
  for it. And when \<^verbatim>\<open>processElement\<close> takes up a blocked candidate (unmarked, with a
  GIF-like and a blocked URL, not exempted by the picker setting) whose owner carries the
  owner-processed marker, it returns the document with the candidate marked processed and
  one element hidden (the candidate itself in the picker, else its nearest wrapper or
  itself) and with the same placeholders as before.
\<close>

theorem one_placeholder_per_owner:
  assumes "distinct (ids (tree d0))" and "placeholders d0 = []"
  shows "length (filter (\<lambda>c. owner_of (snd (run acts (this0, d0))) c = Some ow)
                   (placeholders (snd (run acts (this0, d0))))) \<le> 1 \<and>
    (\<not> truthy (btgDone (props d el)) \<and> some (urls_of d el) (isGifUrl this) \<and>
     some (urls_of d el) (isBlocked this) \<and> (isInGifPicker d el \<longrightarrow> blockInPicker this) \<and>
     getOwnerNode d el (isInGifPicker d el) = Some marked_owner \<and>
     truthy (btgOwnerDone (props d marked_owner)) \<longrightarrow>
       processElement this d el =
         Inr (update (update d el (\<lambda>x. x\<lparr>btgDone := Some ''1''\<rparr>))
                (if isInGifPicker d el then el
                 else (case closest d el [ClassContains ''imageWrapper'', ClassContains ''embedMedia''] of
                         None \<Rightarrow> el
                       | Some w \<Rightarrow> w))
                (\<lambda>x. x\<lparr>display := ''none''\<rparr>)) \<and>
       placeholders (dom_of (processElement this d el)) = placeholders d)"
proof
  have "consistent d0" using assms by (rule placeholders_nil_consistent)
  then have "consistent (snd (run acts (this0, d0)))" by (rule consistent_run)
  then show "length (filter (\<lambda>c. owner_of (snd (run acts (this0, d0))) c = Some ow)
                   (placeholders (snd (run acts (this0, d0))))) \<le> 1"
    by (rule consistent_one_per_owner)
next
  show "\<not> truthy (btgDone (props d el)) \<and> some (urls_of d el) (isGifUrl this) \<and>
     some (urls_of d el) (isBlocked this) \<and> (isInGifPicker d el \<longrightarrow> blockInPicker this) \<and>
     getOwnerNode d el (isInGifPicker d el) = Some marked_owner \<and>
     truthy (btgOwnerDone (props d marked_owner)) \<longrightarrow>
       processElement this d el =
         Inr (update (update d el (\<lambda>x. x\<lparr>btgDone := Some ''1''\<rparr>))
                (if isInGifPicker d el then el
                 else (case closest d el [ClassContains ''imageWrapper'', ClassContains ''embedMedia''] of
                         None \<Rightarrow> el
                       | Some w \<Rightarrow> w))
                (\<lambda>x. x\<lparr>display := ''none''\<rparr>)) \<and>
       placeholders (dom_of (processElement this d el)) = placeholders d"
  proof
    assume a: "\<not> truthy (btgDone (props d el)) \<and> some (urls_of d el) (isGifUrl this) \<and>
     some (urls_of d el) (isBlocked this) \<and> (isInGifPicker d el \<longrightarrow> blockInPicker this) \<and>
     getOwnerNode d el (isInGifPicker d el) = Some marked_owner \<and>
     truthy (btgOwnerDone (props d marked_owner))"
    then have ns: "\<not> settled this d el" by (auto simp: settled_def)
    from a have ow: "getOwnerNode d el (isInGifPicker d el) = Some marked_owner"
      "truthy (btgOwnerDone (props d marked_owner))" by simp_all
    let ?r = "update (update d el (\<lambda>x. x\<lparr>btgDone := Some ''1''\<rparr>))
            (wrapper_of d el (isInGifPicker d el)) (\<lambda>x. x\<lparr>display := ''none''\<rparr>)"
    have r: "processElement this d el = Inr ?r"
      using ns ow by (rule processElement_dedup)
    have "dyn (marked d el) (update (marked d el) (wrapper_of d el (isInGifPicker d el))
        (\<lambda>x. x\<lparr>display := ''none''\<rparr>))"
      by (rule dyn_update) simp
    with dyn_marked have "dyn d ?r" unfolding marked_def by (rule dyn_trans)
    then have "placeholders ?r = placeholders d" by (rule placeholders_dyn)
    with r show "processElement this d el =
         Inr (update (update d el (\<lambda>x. x\<lparr>btgDone := Some ''1''\<rparr>))
                (if isInGifPicker d el then el
                 else (case closest d el [ClassContains ''imageWrapper'', ClassContains ''embedMedia''] of
                         None \<Rightarrow> el
                       | Some w \<Rightarrow> w))
                (\<lambda>x. x\<lparr>display := ''none''\<rparr>)) \<and>
       placeholders (dom_of (processElement this d el)) = placeholders d"
      by (simp add: wrapper_of_def)
  qed
qed

theorem one_placeholder_per_owner_witness:
  "distinct (ids (tree gallery_doc)) \<and> placeholders gallery_doc = [] \<and>
   placeholders (snd (run [Start, Mutation [HTMLElement 2]] (defaults, gallery_doc))) = [5] \<and>
   owner_of (snd (run [Start, Mutation [HTMLElement 2]] (defaults, gallery_doc))) 5 = Some 2 \<and>
   length (filter (\<lambda>c. owner_of (snd (run [Start, Mutation [HTMLElement 2]] (defaults, gallery_doc))) c = Some 2)
             (placeholders (snd (run [Start, Mutation [HTMLElement 2]] (defaults, gallery_doc))))) \<le> 1 \<and>
   getOwnerNode (dom_of (processElement defaults gallery_doc 3)) 4 False = Some 2 \<and>
   truthy (btgOwnerDone (props (dom_of (processElement defaults gallery_doc 3)) 2)) \<and>
   placeholders (dom_of (processElement defaults (dom_of (processElement defaults gallery_doc 3)) 4)) =
     placeholders (dom_of (processElement defaults gallery_doc 3)) \<and>
   display (props (dom_of (processElement defaults (dom_of (processElement defaults gallery_doc 3)) 4)) 4) =
     ''none''"
proof -
  let ?D = "dom_of (processElement defaults gallery_doc 3)"
  have h1: "distinct (ids (tree gallery_doc))" by code_simp
  have h2: "placeholders gallery_doc = []" by code_simp
  have h3: "\<not> truthy (btgDone (props ?D 4)) \<and> some (urls_of ?D 4) (isGifUrl defaults) \<and>
     some (urls_of ?D 4) (isBlocked defaults) \<and> (isInGifPicker ?D 4 \<longrightarrow> blockInPicker defaults) \<and>
     getOwnerNode ?D 4 (isInGifPicker ?D 4) = Some 2 \<and>
     truthy (btgOwnerDone (props ?D 2))"
    by code_simp
  have h4: "isInGifPicker ?D 4 = False" by code_simp
  have e1: "placeholders (snd (run [Start, Mutation [HTMLElement 2]] (defaults, gallery_doc))) = [5]"
    by code_simp
  have e2: "owner_of (snd (run [Start, Mutation [HTMLElement 2]] (defaults, gallery_doc))) 5 = Some 2"
    by code_simp
  have e3: "display (props (dom_of (processElement defaults ?D 4)) 4) = ''none''"
    by code_simp
  note t = one_placeholder_per_owner[OF h1 h2, of "[Start, Mutation [HTMLElement 2]]" defaults 2
      ?D 4 defaults 2]
  note t1 = t[THEN conjunct1]
  note t2 = t[THEN conjunct2, THEN mp, OF h3, THEN conjunct2]
  from h3 h4 have g: "getOwnerNode ?D 4 False = Some 2"
    "truthy (btgOwnerDone (props ?D 2))" by simp_all
  show ?thesis
    by (intro conjI) (rule h1 h2 e1 e2 t1 g t2 e3)+
qed

lemma processElement_outside_settled:
  assumes "el \<notin> set (ids (tree d))" "processElement this d el = Inr d'"
  shows "settled this d el"
proof (rule ccontr)
  assume ns: "\<not> settled this d el"
  have ow: "getOwnerNode d el p = None" for p
    using assms(1) by (rule getOwnerNode_outside)
  have "el \<notin> set (ids (tree (owned (marked d el) None)))"
    using assms(1) by (simp add: owned_def marked_def)
  then have "insertTarget_of (owned (marked d el) None) el p None = None" for p
    by (rule insertTarget_of_outside)
  with assms(2) show False
    unfolding processElement_unsettled[OF ns] Let_def ow
    by (simp add: hideAndEmbed_eq)
qed

lemma forEach_outside_settled:
  assumes "el \<notin> set (ids (tree d))" "forEach xs (processElement this) d = Inr d'"
    "set xs \<subseteq> {el}" "x \<in> set xs"
  shows "settled this d x"
proof -
  from assms(3,4) obtain ys where xs: "xs = el # ys" and x: "x = el"
    by (cases xs) auto
  from assms(2) xs obtain d1 where "processElement this d el = Inr d1"
    by (auto split: sum.splits)
  with assms(1) x show ?thesis using processElement_outside_settled by blast
qed

lemma scan_settles:
  assumes "processContainer this d (HTMLElement c) = Inr d'" "x \<in> set (candidates d' c)"
  shows "settled this d' x"
proof -
  let ?sel = "[Tag ''img'', Tag ''video'', AnchorWithHref]"
  from assms(1) have run: "forEach (candidates d c) (processElement this) d = Inr d'"
    by (simp add: processContainer_candidates)
  show ?thesis
  proof (cases "c \<in> set (ids (tree d))")
    case False
    then have sub: "set (candidates d c) \<subseteq> {c}"
      by (auto simp: set_candidates querySelectorAll_def descendants_outside)
    have "d' = d" by (rule forEach_outside[OF False run sub])
    with assms(2) forEach_outside_settled[OF False run sub] show ?thesis by simp
  next
    case True
    have "set (candidates d c) \<subseteq> set (ids (tree d))"
      using True descendants_in_ids[of "tree d" c]
      by (auto simp: set_candidates querySelectorAll_def)
    from forEach_ext_settles[OF run this]
    have e: "ext d d'" and s: "\<And>x. x \<in> set (candidates d c) \<Longrightarrow> settled this d' x" by blast+
    have k: "kept (props d x) (props d' x)" if "x \<in> set (ids (tree d))" for x
      using e that unfolding ext_def by blast
    show ?thesis
    proof (cases "x \<in> set (ids (tree d))")
      case old: True
      have m: "matches d' x ?sel = matches d x ?sel"
        using k[OF old] by (rule matches_kept) simp
      from assms(2) consider "x = c" "matches d' c ?sel"
        | "x \<in> set (descendants (tree d') c)" "matches d' x ?sel"
        by (auto simp: set_candidates querySelectorAll_def split: if_splits)
      then have "x \<in> set (candidates d c)"
      proof cases
        case 1
        with m show ?thesis by (simp add: set_candidates)
      next
        case 2
        with e True old have "x \<in> set (descendants (tree d) c)" unfolding ext_def by blast
        with 2 m show ?thesis by (simp add: set_candidates querySelectorAll_def)
      qed
      then show ?thesis by (rule s)
    next
      case new: False
      with True have "x \<noteq> c" by auto
      with assms(2) have xd: "x \<in> set (descendants (tree d') c)" and xm: "matches d' x ?sel"
        by (auto simp: set_candidates querySelectorAll_def split: if_splits)
      from xd descendants_in_ids have "x \<in> set (ids (tree d'))" by blast
      with new e have "tagName (props d' x) = ''div''" unfolding ext_def by blast
      with xm not_candidate_div show ?thesis by blast
    qed
  qed
qed

lemma matches_restyled:
  assumes "restyled (props d a) (props d' a)" "static_sel sel"
  shows "matches d' a sel = matches d a sel"
proof -
  from assms(1) have st: "static (props d' a) = static (props d a)" by (simp add: restyled_def)
  show ?thesis
    unfolding matches_def
  proof (rule some_cong_set)
    fix s assume "s \<in> set sel"
    with assms(2) have "\<And>k. s \<noteq> HasData k" by (simp add: static_sel_def)
    with st show "matches1 (props d' a) s = matches1 (props d a) s" by (rule matches1_static)
  qed
qed

text \<open>After the click on the reveal control of placeholder \<open>c\<close>.\<close>

lemma revealed_closest:
  assumes ch: "childless d c" and x: "x \<noteq> c" and ss: "static_sel sel"
  shows "closest (revealed d w ow p c) x sel = closest d x sel"
proof -
  from ch x have "c \<notin> set (ancestors (tree d) x)" by (auto simp: childless_def)
  then have a: "ancestors (tree (revealed d w ow p c)) x = ancestors (tree d) x"
    by (simp add: revealed_tree ancestors_remove_node)
  have "matches (revealed d w ow p c) b sel = matches d b sel" for b
    using revealed_props ss by (rule matches_restyled)
  then show ?thesis by (simp add: closest_def a)
qed

lemma revealed_settled:
  assumes ch: "childless d c" and x: "x \<noteq> c" and s: "settled this d x"
  shows "settled this (revealed d w ow p c) x"
proof -
  let ?d = "revealed d w ow p c"
  note r = restyled_fields[OF revealed_props[of d _ w ow p c]]
  have f: "static (props ?d j) = static (props d j)" for j by (rule r(5))
  have u: "urls_of ?d x = urls_of d x"
    unfolding urls_of_def revealed_closest[OF ch x static_sel_simps(4)]
    by (simp only: static_fields[OF f])
  have g: "isInGifPicker ?d x = isInGifPicker d x"
    by (simp add: isInGifPicker_def revealed_closest[OF ch x])
  from s show ?thesis
    unfolding settled_def u g r(4) .
qed

lemma revealed_candidates:
  assumes ch: "childless d c" and ci: "c \<in> set (ids (tree d))"
    and root: "nid (tree d) \<noteq> c" and tg: "tagName (props d c) = ''div''"
    and x: "x \<in> set (candidates (revealed d w ow p c) r)"
  shows "x \<in> set (candidates d r) \<and> x \<noteq> c"
proof -
  let ?d = "revealed d w ow p c"
  let ?sel = "[Tag ''img'', Tag ''video'', AnchorWithHref]"
  have m: "matches ?d b ?sel = matches d b ?sel" for b
    using revealed_props by (rule matches_restyled) simp
  have nc: "\<not> matches d c ?sel" using tg by (rule not_candidate_div)
  have gone: "c \<notin> set (ids (tree ?d))"
    using ids_remove_node_notin[OF root] by (simp add: revealed_tree)
  from x consider "x = r" "matches d r ?sel"
    | "x \<in> set (descendants (tree ?d) r)" "matches d x ?sel"
    by (auto simp: set_candidates querySelectorAll_def m split: if_splits)
  then show ?thesis
  proof cases
    case 1
    with nc show ?thesis by (auto simp: set_candidates)
  next
    case 2
    from 2(1) descendants_in_ids gone have xc: "x \<noteq> c" by blast
    have "r \<noteq> c"
    proof
      assume "r = c"
      with gone have "descendants (tree ?d) r = []" by (simp add: descendants_outside)
      with 2(1) show False by simp
    qed
    with ch have "c \<notin> set (ancestors (tree d) r)" by (auto simp: childless_def)
    from descendants_remove_node[OF this] 2(1) have "x \<in> set (descendants (tree d) r)"
      by (auto simp: revealed_tree)
    with 2(2) xc show ?thesis by (simp add: set_candidates querySelectorAll_def)
  qed
qed

lemma scan_after_reveal:
  assumes inv: "consistent d" and run: "processContainer this d n = Inr d1"
    and c: "c \<in> set (placeholders d1)"
  shows "processContainer this (snd (dispatchEvent d1 c ''click'')) n =
         Inr (snd (dispatchEvent d1 c ''click''))"
proof (cases n)
  case OtherNode
  then show ?thesis by (simp add: processContainer_def)
next
  case (HTMLElement r)
  have i1: "consistent d1"
    using consistent_processContainer[OF inv, of this n] run by simp
  then have ok: "placeholder_ok d1 c" using c by (simp add: consistent_def)
  then obtain w ow p where l: "listeners (props d1 c) = listeners (container_element w (Some ow) p c)"
    unfolding placeholder_ok_def by blast
  from c have ci: "c \<in> set (ids (tree d1))" and ce: "btgEmbed (props d1 c) \<noteq> None"
    by (simp_all add: set_placeholders)
  have d2: "snd (dispatchEvent d1 c ''click'') = revealed d1 w (Some ow) p c"
    using click_placeholder[OF ci l] by simp
  have ch: "childless d1 c" and tg: "tagName (props d1 c) = ''div''"
    using ok by (simp_all add: placeholder_ok_def)
  have root: "nid (tree d1) \<noteq> c" using i1 ce by (auto simp: consistent_def)
  have "settled this (revealed d1 w (Some ow) p c) x"
    if x: "x \<in> set (candidates (revealed d1 w (Some ow) p c) r)" for x
  proof -
    from revealed_candidates[OF ch ci root tg x]
    have xc: "x \<in> set (candidates d1 r)" and ne: "x \<noteq> c" by simp_all
    from run HTMLElement xc have "settled this d1 x" using scan_settles by blast
    with ch ne show ?thesis by (rule revealed_settled)
  qed
  then have "forEach (candidates (revealed d1 w (Some ow) p c) r) (processElement this)
      (revealed d1 w (Some ow) p c) = Inr (revealed d1 w (Some ow) p c)"
    by (rule forEach_settled)
  with HTMLElement d2 show ?thesis by (simp add: processContainer_candidates)
qed

lemma fold_display_props:
  "props (fold (\<lambda>child dd. update dd child (\<lambda>x. x\<lparr>display := []\<rparr>)) xs d) j =
     (if j \<in> set xs then (props d j)\<lparr>display := []\<rparr> else props d j)"
  by (induction xs arbitrary: d) (auto simp: props_update)

lemma revealed_frame:
  assumes "Some j \<noteq> ow"
  shows "props (revealed d w ow p c) j = props d j \<or>
         props (revealed d w ow p c) j = (props d j)\<lparr>display := []\<rparr>"
proof -
  define d1 where "d1 = update d w (\<lambda>x. x\<lparr>display := []\<rparr>)"
  define d2 where "d2 = fold (\<lambda>child dd. update dd child (\<lambda>x. x\<lparr>display := []\<rparr>))
                 (querySelectorAll d1 w [HasData BtgDone]) d1"
  have r: "props (revealed d w ow p c) j = props d2 j"
    using assms
    by (cases ow) (auto simp: revealed_def Let_def d1_def d2_def props_update)
  have "props d1 j = props d j \<or> props d1 j = (props d j)\<lparr>display := []\<rparr>"
    by (auto simp: d1_def props_update)
  then have "props d2 j = props d j \<or> props d2 j = (props d j)\<lparr>display := []\<rparr>"
    unfolding d2_def fold_display_props by auto
  with r show ?thesis by simp
qed

lemma btgDone_restore_one:
  "btgDone (props (restore_one el dd) j) = (if j = el then None else btgDone (props dd j))"
  by (auto simp: restore_one_def Let_def props_update split: option.splits)

lemma btgDone_fold_restore_one:
  "btgDone (props (fold restore_one xs dd) j) =
     (if j \<in> set xs then None else btgDone (props dd j))"
  by (induction xs arbitrary: dd) (auto simp: btgDone_restore_one)

lemma unmark_tree: "unmark d d' \<Longrightarrow> tree d' = tree d"
  by (simp add: unmark_def)

lemma btgDone_fold_update:
  assumes "\<And>e. btgDone (f e) = btgDone e"
  shows "btgDone (props (fold (\<lambda>el dd. update dd el f) xs d) j) = btgDone (props d j)"
  by (induction xs arbitrary: d) (simp_all add: props_update assms)

lemma clear_markers_btgDone:
  assumes "j \<in> set (ids (tree d))"
  shows "btgDone (props (clear_markers d) j) = None"
proof -
  define d2 where "d2 = fold restore_one (document_querySelectorAll d [HasData BtgDone]) d"
  define d3 where "d3 = fold (\<lambda>el dd. update dd el (\<lambda>x. x\<lparr>btgOwnerDone := None\<rparr>))
                (document_querySelectorAll d2 [HasData BtgOwnerDone]) d2"
  define d4 where "d4 = fold (\<lambda>el dd. update dd el
                   (\<lambda>x. x\<lparr>pointerEvents := [], btgClickBlocked := None\<rparr>))
                (document_querySelectorAll d3 [HasData BtgClickBlocked]) d3"
  have u: "(\<lambda>el dd. update (update dd el (\<lambda>x. x\<lparr>pointerEvents := []\<rparr>)) el
                    (\<lambda>x. x\<lparr>btgClickBlocked := None\<rparr>)) =
           (\<lambda>el dd. update dd el (\<lambda>x. x\<lparr>pointerEvents := [], btgClickBlocked := None\<rparr>))"
    by (intro ext) (simp add: update_def)
  have c: "clear_markers d = d4"
    unfolding clear_markers_def d2_def d3_def d4_def Let_def u ..
  have "btgDone (props d2 j) = None"
    using assms unfolding d2_def btgDone_fold_restore_one
    by (auto simp: document_querySelectorAll_def matches_def)
  then have "btgDone (props d3 j) = None"
    unfolding d3_def by (simp add: btgDone_fold_update)
  then have "btgDone (props d4 j) = None"
    unfolding d4_def by (simp add: btgDone_fold_update)
  with c show ?thesis by simp
qed

lemma clear_all_btgDone:
  assumes "j \<in> set (ids (tree (clear_all d)))"
  shows "btgDone (props (clear_all d) j) = None"
proof -
  have "tree (clear_all d) = tree (remove_placeholders d)"
    using unmark_clear_markers[of "remove_placeholders d"]
    by (simp add: clear_all_eq unmark_def)
  with assms have "j \<in> set (ids (tree (remove_placeholders d)))" by simp
  then show ?thesis unfolding clear_all_eq by (rule clear_markers_btgDone)
qed

text \<open>
  C10. In a session that began with a document without placeholders, let a scan of a
  node return, and let the user click the reveal control of a placeholder \<open>c\<close> of the
  resulting document. The click takes \<open>c\<close> out of the tree and leaves the processed
  marker of every element as it was, and with it the tag, the attributes, the listeners
  and the placeholder marker (only the inline display, the pointer events, the
  click-blocked marker and the owner-processed marker can differ); an element other than
  the owner that the listener captured is left as it was, or has only its inline display
  reset. A scan of the same
  node after the click changes nothing: no placeholder is built again. The processed
  markers go only with the clearing loops of \<^verbatim>\<open>rescan()\<close> and \<^verbatim>\<open>stop()\<close>, after
  which no element of the document carries one.
\<close>

theorem reveal_keeps_processed_markers:
  assumes "distinct (ids (tree d0))" and "placeholders d0 = []"
    and "processContainer this (snd (run acts (this0, d0))) n = Inr d1"
    and "c \<in> set (placeholders d1)"
  shows "tree (snd (dispatchEvent d1 c ''click'')) = remove_node c (tree d1) \<and>
    (\<forall>j. btgDone (props (snd (dispatchEvent d1 c ''click'')) j) = btgDone (props d1 j)) \<and>
    (\<forall>j. restyled (props d1 j) (props (snd (dispatchEvent d1 c ''click'')) j)) \<and>
    (\<forall>j. owner_of d1 c \<noteq> Some j \<longrightarrow>
         props (snd (dispatchEvent d1 c ''click'')) j = props d1 j \<or>
         props (snd (dispatchEvent d1 c ''click'')) j = (props d1 j)\<lparr>display := []\<rparr>) \<and>
    processContainer this (snd (dispatchEvent d1 c ''click'')) n =
      Inr (snd (dispatchEvent d1 c ''click'')) \<and>
    (\<forall>j \<in> set (ids (tree (clear_all (snd (dispatchEvent d1 c ''click''))))).
         btgDone (props (clear_all (snd (dispatchEvent d1 c ''click''))) j) = None)"
proof -
  let ?d = "snd (run acts (this0, d0))"
  let ?d2 = "snd (dispatchEvent d1 c ''click'')"
  have "consistent d0" using assms(1,2) by (rule placeholders_nil_consistent)
  then have inv: "consistent ?d" by (rule consistent_run)
  have i1: "consistent d1"
    using consistent_processContainer[OF inv, of this n] assms(3) by simp
  then have "placeholder_ok d1 c" using assms(4) by (simp add: consistent_def)
  then obtain w ow p where l: "listeners (props d1 c) = listeners (container_element w (Some ow) p c)"
    unfolding placeholder_ok_def by blast
  from assms(4) have ci: "c \<in> set (ids (tree d1))" by (simp add: set_placeholders)
  have d2: "?d2 = revealed d1 w (Some ow) p c"
    using click_placeholder[OF ci l] by simp
  have oc: "owner_of d1 c = Some ow" using l by (rule owner_of_container)
  have a: "tree ?d2 = remove_node c (tree d1)"
    unfolding d2 by (rule revealed_tree)
  have b: "\<forall>j. btgDone (props ?d2 j) = btgDone (props d1 j)"
    unfolding d2 using restyled_fields(4)[OF revealed_props] by blast
  have r: "\<forall>j. restyled (props d1 j) (props ?d2 j)"
    unfolding d2 using revealed_props by blast
  have f: "\<forall>j. owner_of d1 c \<noteq> Some j \<longrightarrow>
         props ?d2 j = props d1 j \<or> props ?d2 j = (props d1 j)\<lparr>display := []\<rparr>"
    unfolding d2 oc using revealed_frame[of _ "Some ow" d1 w p c] by auto
  have s: "processContainer this ?d2 n = Inr ?d2"
    using inv assms(3,4) by (rule scan_after_reveal)
  have m: "\<forall>j \<in> set (ids (tree (clear_all ?d2))). btgDone (props (clear_all ?d2) j) = None"
    using clear_all_btgDone by blast
  from a b r f s m show ?thesis by blast
qed

theorem reveal_keeps_processed_markers_witness:
  "distinct (ids (tree message_doc)) \<and> placeholders message_doc = [] \<and>
   placeholders (dom_of (processContainer defaults message_doc (HTMLElement 1))) = [5] \<and>
   btgDone (props (snd (dispatchEvent
       (dom_of (processContainer defaults message_doc (HTMLElement 1))) 5 ''click'')) 4) = Some ''1'' \<and>
   placeholders (snd (dispatchEvent
       (dom_of (processContainer defaults message_doc (HTMLElement 1))) 5 ''click'')) = [] \<and>
   processContainer defaults (snd (dispatchEvent
       (dom_of (processContainer defaults message_doc (HTMLElement 1))) 5 ''click'')) (HTMLElement 1) =
     Inr (snd (dispatchEvent
       (dom_of (processContainer defaults message_doc (HTMLElement 1))) 5 ''click'')) \<and>
   btgDone (props (clear_all (snd (dispatchEvent
       (dom_of (processContainer defaults message_doc (HTMLElement 1))) 5 ''click''))) 4) = None"
proof -
  let ?D1 = "dom_of (processContainer defaults message_doc (HTMLElement 1))"
  let ?D2 = "snd (dispatchEvent ?D1 5 ''click'')"
  have h1: "distinct (ids (tree message_doc))" by code_simp
  have h2: "placeholders message_doc = []" by code_simp
  have "\<not> isl (processContainer defaults message_doc (HTMLElement 1))" by code_simp
  then have "processContainer defaults message_doc (HTMLElement 1) = Inr ?D1"
    by (cases "processContainer defaults message_doc (HTMLElement 1)") auto
  then have h3: "processContainer defaults (snd (run [] (defaults, message_doc))) (HTMLElement 1) =
      Inr ?D1"
    by (simp add: run_def)
  have e1: "placeholders ?D1 = [5]" by code_simp
  then have h4: "5 \<in> set (placeholders ?D1)" by simp
  have e2: "btgDone (props ?D2 4) = Some ''1''" by code_simp
  have e3: "placeholders ?D2 = []" by code_simp
  have e4: "btgDone (props (clear_all ?D2) 4) = None" by code_simp
  note t = reveal_keeps_processed_markers[OF h1 h2 h3 h4]
  note t4 = t[THEN conjunct2, THEN conjunct2, THEN conjunct2, THEN conjunct2, THEN conjunct1]
  show ?thesis
    by (intro conjI) (rule h1 h2 e1 e2 e3 t4 e4)+
qed

end
